theory Spec2Isabelle
  imports Main "HOL-Library.Word" "HOL-Library.Multiset"
begin

unbundle bit_operations_syntax

section \<open>Active task slot manager (model/active_task_slot.go)\<close>

subsection \<open>Constants\<close>

definition MaxGlobalSlots :: nat where
  "MaxGlobalSlots = 1000"

definition MaxUserSlots :: nat where
  "MaxUserSlots = 50"

definition ActiveWindowSeconds :: int where
  "ActiveWindowSeconds = 30"

definition SimHashThreshold :: nat where
  "SimHashThreshold = 5"

subsection \<open>strings.Fields of the Go standard library\<close>

text \<open>
  A Go string is a sequence of bytes; it is modelled as a \<open>string\<close>, one \<open>char\<close> per byte.
  \<open>strings.Fields\<close> splits around runs of white space as \<open>unicode.IsSpace\<close> defines it, on
  the runes that UTF-8 decoding yields; an invalid byte decodes to \<open>RuneError\<close> of width 1.
  These three functions belong to the standard library and are written here after it.
\<close>

definition byte :: "char \<Rightarrow> nat" where
  "byte c = of_char c"

definition RuneError :: nat where
  "RuneError = 0xFFFD"

text \<open>The table \<open>first\<close> of package utf8: size of the encoding announced by the leading
  byte and the accepted range of the second byte; size 1 stands for an invalid leading byte.\<close>

definition first :: "nat \<Rightarrow> nat \<times> nat \<times> nat" where
  "first b0 =
    (if 0xC2 \<le> b0 \<and> b0 \<le> 0xDF then (2, 0x80, 0xBF)
     else if b0 = 0xE0 then (3, 0xA0, 0xBF)
     else if b0 = 0xED then (3, 0x80, 0x9F)
     else if 0xE1 \<le> b0 \<and> b0 \<le> 0xEF then (3, 0x80, 0xBF)
     else if b0 = 0xF0 then (4, 0x90, 0xBF)
     else if b0 = 0xF4 then (4, 0x80, 0x8F)
     else if 0xF1 \<le> b0 \<and> b0 \<le> 0xF3 then (4, 0x80, 0xBF)
     else (1, 0, 0))"

definition DecodeRuneInString :: "string \<Rightarrow> nat \<times> nat" where
  "DecodeRuneInString s =
    (case map byte s of
       [] \<Rightarrow> (RuneError, 0)
     | s0 # rest \<Rightarrow>
         if s0 < 0x80 then (s0, 1)
         else
           (case first s0 of (sz, lo, hi) \<Rightarrow>
              if sz = 1 then (RuneError, 1)
              else if length s < sz then (RuneError, 1)
              else
                (let s1 = rest ! 0 in
                 if s1 < lo \<or> hi < s1 then (RuneError, 1)
                 else if sz \<le> 2 then ((s0 mod 32) * 64 + s1 mod 64, 2)
                 else
                   (let s2 = rest ! 1 in
                    if s2 < 0x80 \<or> 0xBF < s2 then (RuneError, 1)
                    else if sz \<le> 3 then
                      ((s0 mod 16) * 4096 + (s1 mod 64) * 64 + s2 mod 64, 3)
                    else
                      (let s3 = rest ! 2 in
                       if s3 < 0x80 \<or> 0xBF < s3 then (RuneError, 1)
                       else ((s0 mod 8) * 262144 + (s1 mod 64) * 4096
                               + (s2 mod 64) * 64 + s3 mod 64, 4))))))"

definition IsSpace :: "nat \<Rightarrow> bool" where
  "IsSpace r \<longleftrightarrow>
    (if r \<le> 0xFF then r \<in> {0x09, 0x0A, 0x0B, 0x0C, 0x0D, 0x20, 0x85, 0xA0}
     else r = 0x1680 \<or> (0x2000 \<le> r \<and> r \<le> 0x200A) \<or> r = 0x2028 \<or> r = 0x2029
          \<or> r = 0x202F \<or> r = 0x205F \<or> r = 0x3000)"

text \<open>The scan of \<open>FieldsFunc\<close>: \<open>cur\<close> is the field being read, empty between fields.\<close>

fun fields_loop :: "string \<Rightarrow> string \<Rightarrow> string list" where
  "fields_loop cur [] = (if cur = [] then [] else [cur])"
| "fields_loop cur (c # cs) =
    (case DecodeRuneInString (c # cs) of (r, sz) \<Rightarrow>
       if IsSpace r then (if cur = [] then [] else [cur]) @ fields_loop [] (drop (sz - 1) cs)
       else fields_loop (cur @ c # take (sz - 1) cs) (drop (sz - 1) cs))"

definition Fields :: "string \<Rightarrow> string list" where
  "Fields s = fields_loop [] s"

subsection \<open>FingerprintEngine: simhash64, tokenHash64, hamming64\<close>

text \<open>
  \<open>tokenHash64\<close> hashes the salt followed by the token with SHA-1 and reads the first eight
  bytes of the digest in little-endian order. SHA-1 (crypto/sha1) and the random salt drawn
  once in \<open>init\<close> are parameters \<open>sha1\<close> and \<open>salt\<close> of the model: within one process
  lifetime both are fixed. A SHA-1 digest has 20 bytes, so the eight reads are in range.
\<close>

definition tokenHash64 :: "(string \<Rightarrow> string) \<Rightarrow> string \<Rightarrow> string \<Rightarrow> 64 word" where
  "tokenHash64 sha1 salt token =
    (let sum = sha1 (salt @ token) in
     of_char (sum ! 0) OR
     push_bit 8 (of_char (sum ! 1)) OR
     push_bit 16 (of_char (sum ! 2)) OR
     push_bit 24 (of_char (sum ! 3)) OR
     push_bit 32 (of_char (sum ! 4)) OR
     push_bit 40 (of_char (sum ! 5)) OR
     push_bit 48 (of_char (sum ! 6)) OR
     push_bit 56 (of_char (sum ! 7)))"

text \<open>The inner loop of \<open>simhash64\<close>: one token's hash votes on each of the 64 counters.
  The counters are Go \<open>int\<close>s; they are modelled as \<open>int\<close>, which they equal for any text
  of fewer than \<open>2 ^ 63\<close> tokens.\<close>

definition vote :: "64 word \<Rightarrow> int list \<Rightarrow> int list" where
  "vote h v =
    fold (\<lambda>i v. if drop_bit i h AND 1 = 1 then v[i := v ! i + 1] else v[i := v ! i - 1])
      [0..<64] v"

definition simhash64 :: "(string \<Rightarrow> string) \<Rightarrow> string \<Rightarrow> string \<Rightarrow> 64 word" where
  "simhash64 sha1 salt data =
    (let tokens = Fields data in
     if length tokens = 0 then 0
     else
       (let v = fold (\<lambda>tok v. vote (tokenHash64 sha1 salt tok) v) tokens (replicate 64 0)
        in fold (\<lambda>i out. if v ! i \<ge> 0 then out OR push_bit i 1 else out) [0..<64] 0))"

text \<open>\<open>bits.OnesCount64\<close>: the number of one bits.\<close>

definition OnesCount64 :: "64 word \<Rightarrow> nat" where
  "OnesCount64 w = length (filter (bit w) [0..<64])"

definition hamming64 :: "64 word \<Rightarrow> 64 word \<Rightarrow> nat" where
  "hamming64 a b = OnesCount64 (a XOR b)"

subsection \<open>SlotStore: the data\<close>

record TaskSlot =
  UserID :: int
  Username :: string
  UpdatedAt :: int
  SimHash :: "64 word"

text \<open>
  \<open>slots\<close> is a slice of pointers, each cell referenced from this slice only, so writing
  through \<open>m.slots[idx]\<close> is an update of the list at \<open>idx\<close>. Slot indices are lengths of
  \<open>slots\<close> at allocation time, hence naturals. The mutex is left out: every operation below
  runs under it from beginning to end.
\<close>

record ActiveTaskSlotManager =
  slots :: "TaskSlot list"
  userSlotIdx :: "int \<rightharpoonup> nat list"
  lruOrder :: "nat list"

text \<open>The manager that \<open>GetActiveTaskSlotManager\<close> builds on first use.\<close>

definition empty_manager :: ActiveTaskSlotManager where
  "empty_manager = \<lparr>slots = [], userSlotIdx = Map.empty, lruOrder = []\<rparr>"

text \<open>Reading a slice beyond its length panics; the panic is a value of the model.\<close>

datatype panic = IndexOutOfRange

text \<open>\<open>m.userSlotIdx[userID]\<close>: the nil slice for a key that is absent.\<close>

definition user_slots :: "ActiveTaskSlotManager \<Rightarrow> int \<Rightarrow> nat list" where
  "user_slots m userID = (case userSlotIdx m userID of None \<Rightarrow> [] | Some l \<Rightarrow> l)"

subsection \<open>SlotStore: moveToLRUEnd, removeFromUserSlotIdx, findOldestUserSlot, reuseSlot\<close>

text \<open>The loop deletes the first occurrence of \<open>idx\<close> and stops, which is \<open>remove1\<close>.\<close>

definition moveToLRUEnd :: "ActiveTaskSlotManager \<Rightarrow> nat \<Rightarrow> ActiveTaskSlotManager" where
  "moveToLRUEnd m idx = m\<lparr>lruOrder := remove1 idx (lruOrder m) @ [idx]\<rparr>"

definition removeFromUserSlotIdx ::
  "ActiveTaskSlotManager \<Rightarrow> int \<Rightarrow> nat \<Rightarrow> ActiveTaskSlotManager" where
  "removeFromUserSlotIdx m userID idx =
    (let slots' = user_slots m userID;
         m1 = (if idx \<in> set slots'
               then m\<lparr>userSlotIdx := (userSlotIdx m)(userID \<mapsto> remove1 idx slots')\<rparr>
               else m)
     in if length (user_slots m1 userID) = 0
        then m1\<lparr>userSlotIdx := (userSlotIdx m1)(userID := None)\<rparr>
        else m1)"

text \<open>The loop of \<open>findOldestUserSlot\<close> over \<open>userSlots[1:]\<close>.\<close>

fun oldest_loop :: "TaskSlot list \<Rightarrow> nat list \<Rightarrow> nat \<Rightarrow> int \<Rightarrow> panic + int" where
  "oldest_loop sl [] oldestIdx oldestTime = Inr (int oldestIdx)"
| "oldest_loop sl (idx # rest) oldestIdx oldestTime =
    (if idx < length sl then
       (if UpdatedAt (sl ! idx) < oldestTime
        then oldest_loop sl rest idx (UpdatedAt (sl ! idx))
        else oldest_loop sl rest oldestIdx oldestTime)
     else Inl IndexOutOfRange)"

text \<open>The result is an index of the user's list, or \<open>- 1\<close> for a user without slots.\<close>

definition findOldestUserSlot :: "ActiveTaskSlotManager \<Rightarrow> int \<Rightarrow> panic + int" where
  "findOldestUserSlot m userID =
    (let userSlots = user_slots m userID in
     if length userSlots = 0 then Inr (- 1)
     else
       (let oldestIdx = hd userSlots in
        if oldestIdx < length (slots m)
        then oldest_loop (slots m) (tl userSlots) oldestIdx (UpdatedAt (slots m ! oldestIdx))
        else Inl IndexOutOfRange))"

definition reuseSlot ::
  "ActiveTaskSlotManager \<Rightarrow> nat \<Rightarrow> int \<Rightarrow> string \<Rightarrow> int \<Rightarrow> 64 word
     \<Rightarrow> panic + ActiveTaskSlotManager" where
  "reuseSlot m idx newUserID username now newHash =
    (if idx < length (slots m) then
       (let oldSlot = slots m ! idx;
            oldUserID = UserID oldSlot;
            m1 = (if oldUserID \<noteq> newUserID then
                    (let m' = removeFromUserSlotIdx m oldUserID idx
                     in m'\<lparr>userSlotIdx :=
                           (userSlotIdx m')(newUserID \<mapsto> user_slots m' newUserID @ [idx])\<rparr>)
                  else m);
            m2 = m1\<lparr>slots := (slots m1)[idx :=
                    oldSlot\<lparr>UserID := newUserID, Username := username,
                            UpdatedAt := now, SimHash := newHash\<rparr>]\<rparr>
        in Inr (moveToLRUEnd m2 idx))
     else Inl IndexOutOfRange)"

subsection \<open>SlotStore: RecordTask\<close>

text \<open>Step 1, the scan of the caller's slots: the first index within the threshold.\<close>

fun match_loop :: "TaskSlot list \<Rightarrow> nat list \<Rightarrow> 64 word \<Rightarrow> panic + nat option" where
  "match_loop sl [] newHash = Inr None"
| "match_loop sl (idx # rest) newHash =
    (if idx < length sl then
       (if hamming64 (SimHash (sl ! idx)) newHash \<le> SimHashThreshold then Inr (Some idx)
        else match_loop sl rest newHash)
     else Inl IndexOutOfRange)"

text \<open>Step 3, the allocation of a new slot at the end of the store.\<close>

definition new_slot ::
  "ActiveTaskSlotManager \<Rightarrow> int \<Rightarrow> string \<Rightarrow> int \<Rightarrow> 64 word \<Rightarrow> ActiveTaskSlotManager" where
  "new_slot m userID username now newHash =
    (let newSlot = \<lparr>UserID = userID, Username = username,
                     UpdatedAt = now, SimHash = newHash\<rparr>;
         newIdx = length (slots m)
     in m\<lparr>slots := slots m @ [newSlot],
          userSlotIdx := (userSlotIdx m)(userID \<mapsto> user_slots m userID @ [newIdx]),
          lruOrder := lruOrder m @ [newIdx]\<rparr>)"

text \<open>What follows the per-user check when it does not return: the global check, which
  reuses the head of the recency list, and otherwise step 3.\<close>

definition global_or_new ::
  "ActiveTaskSlotManager \<Rightarrow> int \<Rightarrow> string \<Rightarrow> int \<Rightarrow> 64 word
     \<Rightarrow> panic + ActiveTaskSlotManager" where
  "global_or_new m userID username now newHash =
    (if length (slots m) \<ge> MaxGlobalSlots then
       (if length (lruOrder m) > 0
        then reuseSlot m (hd (lruOrder m)) userID username now newHash
        else Inr (new_slot m userID username now newHash))
     else Inr (new_slot m userID username now newHash))"

text \<open>\<open>now\<close> is the value of \<open>time.Now().Unix()\<close> read by the call.\<close>

definition RecordTask ::
  "(string \<Rightarrow> string) \<Rightarrow> string \<Rightarrow> ActiveTaskSlotManager \<Rightarrow> int \<Rightarrow> string \<Rightarrow> int \<Rightarrow> string
     \<Rightarrow> panic + ActiveTaskSlotManager" where
  "RecordTask sha1 salt m userID username now data =
    (let newHash = simhash64 sha1 salt data;
         userSlots = user_slots m userID
     in case match_loop (slots m) userSlots newHash of
          Inl e \<Rightarrow> Inl e
        | Inr (Some idx) \<Rightarrow>
            Inr (moveToLRUEnd
                  (m\<lparr>slots := (slots m)[idx :=
                       (slots m ! idx)\<lparr>UpdatedAt := now, SimHash := newHash,
                                       Username := username\<rparr>]\<rparr>) idx)
        | Inr None \<Rightarrow>
            if length userSlots \<ge> MaxUserSlots then
              (case findOldestUserSlot m userID of
                 Inl e \<Rightarrow> Inl e
               | Inr oldestIdx \<Rightarrow>
                   if oldestIdx \<ge> 0
                   then reuseSlot m (nat oldestIdx) userID username now newHash
                   else global_or_new m userID username now newHash)
            else global_or_new m userID username now newHash)"

subsection \<open>RankReporter: GetActiveTaskRank, GetHighActiveUsers, GetStats\<close>

record UserActiveTaskCount =
  user_id :: int
  username :: string
  ActiveSlots :: int

text \<open>Subtraction on \<open>int64\<close> wraps around.\<close>

definition wrap64 :: "int \<Rightarrow> int" where
  "wrap64 x = signed_take_bit 63 x"

text \<open>One round of the counting loop over \<open>m.slots\<close>.\<close>

definition count_slot ::
  "int \<Rightarrow> TaskSlot \<Rightarrow> (int \<rightharpoonup> UserActiveTaskCount) \<Rightarrow> (int \<rightharpoonup> UserActiveTaskCount)" where
  "count_slot cutoff slot userCounts =
    (if UpdatedAt slot \<ge> cutoff then
       (let e = (case userCounts (UserID slot) of
                   None \<Rightarrow> \<lparr>user_id = UserID slot, username = Username slot, ActiveSlots = 0\<rparr>
                 | Some e \<Rightarrow> e)
        in userCounts(UserID slot \<mapsto> e\<lparr>ActiveSlots := ActiveSlots e + 1\<rparr>))
     else userCounts)"

text \<open>The exchange sort at the end of \<open>GetActiveTaskRank\<close>; the swaps keep the length.\<close>

definition swap_greater ::
  "nat \<Rightarrow> nat \<Rightarrow> UserActiveTaskCount list \<Rightarrow> UserActiveTaskCount list" where
  "swap_greater i j result =
    (if ActiveSlots (result ! j) > ActiveSlots (result ! i)
     then result[i := result ! j, j := result ! i]
     else result)"

definition sort_desc :: "UserActiveTaskCount list \<Rightarrow> UserActiveTaskCount list" where
  "sort_desc result =
    fold (\<lambda>i r. fold (\<lambda>j r. swap_greater i j r) [i + 1..<length r] r)
      [0..<length result - 1] result"

text \<open>
  Go ranges over a map in an order of the runtime's choosing. \<open>keys\<close> is that order: the
  keys of \<open>userCounts\<close>, each once.
\<close>

definition GetActiveTaskRank ::
  "ActiveTaskSlotManager \<Rightarrow> int \<Rightarrow> int \<Rightarrow> int list \<Rightarrow> UserActiveTaskCount list" where
  "GetActiveTaskRank m now windowSeconds keys =
    (let windowSeconds' = (if windowSeconds \<le> 0 then ActiveWindowSeconds else windowSeconds);
         cutoff = wrap64 (now - windowSeconds');
         userCounts = fold (count_slot cutoff) (slots m) Map.empty;
         result = List.map_filter userCounts keys
     in sort_desc result)"

definition GetHighActiveUsers ::
  "ActiveTaskSlotManager \<Rightarrow> int \<Rightarrow> int \<Rightarrow> int \<Rightarrow> int list \<Rightarrow> UserActiveTaskCount list" where
  "GetHighActiveUsers m now windowSeconds threshold keys =
    (let rank = GetActiveTaskRank m now windowSeconds keys
     in fold (\<lambda>u result. if ActiveSlots u \<ge> threshold then result @ [u] else result) rank [])"

record Stats =
  total_slots :: nat
  active_slots :: nat
  max_global_slots :: nat
  max_user_slots :: nat
  active_users :: nat
  window_seconds :: int

definition GetStats :: "ActiveTaskSlotManager \<Rightarrow> int \<Rightarrow> Stats" where
  "GetStats m now =
    (let activeCount =
           fold (\<lambda>slot c. if UpdatedAt slot \<ge> wrap64 (now - ActiveWindowSeconds) then c + 1 else c)
             (slots m) 0
     in \<lparr>total_slots = length (slots m),
         active_slots = activeCount,
         max_global_slots = MaxGlobalSlots,
         max_user_slots = MaxUserSlots,
         active_users = card (dom (userSlotIdx m)),
         window_seconds = ActiveWindowSeconds\<rparr>)"

subsection \<open>Notions of the specification\<close>

text \<open>The ASCII white space characters: tab, line feed, vertical tab, form feed, carriage
  return and space.\<close>

definition ascii_space :: "char \<Rightarrow> bool" where
  "ascii_space c \<longleftrightarrow> byte c \<in> {0x09, 0x0A, 0x0B, 0x0C, 0x0D, 0x20}"

text \<open>The signed vote for bit position \<open>i\<close>: every token, with its repetitions, counts
  \<open>+1\<close> when its hash has bit \<open>i\<close> set and \<open>-1\<close> otherwise.\<close>

definition signed_vote :: "(string \<Rightarrow> string) \<Rightarrow> string \<Rightarrow> string list \<Rightarrow> nat \<Rightarrow> int" where
  "signed_vote sha1 salt tokens i =
    (\<Sum>tok\<leftarrow>tokens. if bit (tokenHash64 sha1 salt tok) i then 1 else - 1)"

text \<open>
  Index consistency: no membership list is stored empty or holds an index twice; the list
  of user \<open>u\<close> holds exactly the allocated positions whose slot names \<open>u\<close> as its owner; the
  recency list is an arrangement of the allocated positions.
\<close>

definition index_consistent :: "ActiveTaskSlotManager \<Rightarrow> bool" where
  "index_consistent m \<longleftrightarrow>
    (\<forall>u. userSlotIdx m u \<noteq> Some []) \<and>
    (\<forall>u. distinct (user_slots m u)) \<and>
    (\<forall>u. set (user_slots m u) = {i. i < length (slots m) \<and> UserID (slots m ! i) = u}) \<and>
    distinct (lruOrder m) \<and>
    set (lruOrder m) = {..<length (slots m)}"

text \<open>The recency list runs from the oldest timestamp to the newest.\<close>

definition lru_sorted :: "ActiveTaskSlotManager \<Rightarrow> bool" where
  "lru_sorted m \<longleftrightarrow> sorted (map (\<lambda>i. UpdatedAt (slots m ! i)) (lruOrder m))"

text \<open>The clock has not gone back: \<open>now\<close> is no earlier than any stored timestamp.\<close>

definition clock_ok :: "ActiveTaskSlotManager \<Rightarrow> int \<Rightarrow> bool" where
  "clock_ok m now \<longleftrightarrow> (\<forall>s \<in> set (slots m). UpdatedAt s \<le> now)"

definition within_capacity :: "ActiveTaskSlotManager \<Rightarrow> bool" where
  "within_capacity m \<longleftrightarrow>
    length (slots m) \<le> MaxGlobalSlots \<and>
    (\<forall>u. length (user_slots m u) \<le> MaxUserSlots)"

text \<open>The positions whose slot is owned by \<open>u\<close>, read off the slots themselves.\<close>

definition owned :: "ActiveTaskSlotManager \<Rightarrow> int \<Rightarrow> nat set" where
  "owned m u = {i. i < length (slots m) \<and> UserID (slots m ! i) = u}"

text \<open>The states that calls of \<open>RecordTask\<close> lead to from the empty manager.\<close>

inductive reachable :: "(string \<Rightarrow> string) \<Rightarrow> string \<Rightarrow> ActiveTaskSlotManager \<Rightarrow> bool"
  for sha1 :: "string \<Rightarrow> string" and salt :: string where
  reachable_empty: "reachable sha1 salt empty_manager"
| reachable_step: "reachable sha1 salt m \<Longrightarrow>
     RecordTask sha1 salt m userID uname now data = Inr m' \<Longrightarrow> reachable sha1 salt m'"

text \<open>The states that calls of \<open>RecordTask\<close> lead to from the empty manager when no call
  reads a time earlier than a stored timestamp.\<close>

inductive reachable_mono :: "(string \<Rightarrow> string) \<Rightarrow> string \<Rightarrow> ActiveTaskSlotManager \<Rightarrow> bool"
  for sha1 :: "string \<Rightarrow> string" and salt :: string where
  mono_empty: "reachable_mono sha1 salt empty_manager"
| mono_step: "reachable_mono sha1 salt m \<Longrightarrow> clock_ok m now \<Longrightarrow>
     RecordTask sha1 salt m userID uname now data = Inr m' \<Longrightarrow> reachable_mono sha1 salt m'"

text \<open>The slots of \<open>u\<close> touched at or after \<open>cutoff\<close>, in store order.\<close>

definition active_of :: "ActiveTaskSlotManager \<Rightarrow> int \<Rightarrow> int \<Rightarrow> TaskSlot list" where
  "active_of m cutoff u = filter (\<lambda>s. UserID s = u \<and> UpdatedAt s \<ge> cutoff) (slots m)"

text \<open>The window that \<open>GetActiveTaskRank\<close> works with.\<close>

definition effective_window :: "int \<Rightarrow> int" where
  "effective_window windowSeconds =
    (if windowSeconds \<le> 0 then ActiveWindowSeconds else windowSeconds)"

text \<open>The membership lists that \<open>reuseSlot\<close> leaves behind, user by user.\<close>

definition reuse_lists :: "ActiveTaskSlotManager \<Rightarrow> nat \<Rightarrow> int \<Rightarrow> int \<Rightarrow> nat list" where
  "reuse_lists m idx newUserID v =
    (if UserID (slots m ! idx) = newUserID then user_slots m v
     else if v = newUserID then user_slots m newUserID @ [idx]
     else if v = UserID (slots m ! idx) then remove1 idx (user_slots m v)
     else user_slots m v)"

text \<open>Slot \<open>i\<close> is within the similarity threshold of the fingerprint \<open>h\<close>.\<close>

definition similar :: "ActiveTaskSlotManager \<Rightarrow> 64 word \<Rightarrow> nat \<Rightarrow> bool" where
  "similar m h i \<longleftrightarrow> hamming64 (SimHash (slots m ! i)) h \<le> SimHashThreshold"

text \<open>The ranking entry of user \<open>u\<close>: the number of slots of \<open>u\<close> touched at or after
  \<open>cutoff\<close>, with the name on the first of them in store order.\<close>

definition rank_entry :: "ActiveTaskSlotManager \<Rightarrow> int \<Rightarrow> int \<Rightarrow> UserActiveTaskCount" where
  "rank_entry m cutoff u =
    \<lparr>user_id = u, username = Username (hd (active_of m cutoff u)),
     ActiveSlots = int (length (active_of m cutoff u))\<rparr>"

subsection \<open>Example stores\<close>

text \<open>Two users with one slot each; the slot of user 7 is the older one.\<close>

definition two_users :: ActiveTaskSlotManager where
  "two_users =
    \<lparr>slots = [\<lparr>UserID = 7, Username = ''bob'', UpdatedAt = 100, SimHash = 0\<rparr>,
              \<lparr>UserID = 8, Username = ''eve'', UpdatedAt = 101, SimHash = - 1\<rparr>],
     userSlotIdx = [7 \<mapsto> [0], 8 \<mapsto> [1]],
     lruOrder = [0, 1]\<rparr>"

text \<open>\<open>k\<close> users, numbered from 1, with one slot each, all of fingerprint 0.\<close>

definition one_each :: "nat \<Rightarrow> ActiveTaskSlotManager" where
  "one_each k =
    \<lparr>slots = map (\<lambda>i. \<lparr>UserID = int i + 1, Username = [], UpdatedAt = 0, SimHash = 0\<rparr>) [0..<k],
     userSlotIdx = (\<lambda>u. if 1 \<le> u \<and> u \<le> int k then Some [nat (u - 1)] else None),
     lruOrder = [0..<k]\<rparr>"

text \<open>\<open>k\<close> users, numbered from 1, with one slot each: the first slot was recorded at time
  100, the clock was then set back and the others were recorded at time 0.\<close>

definition stepped_back :: "nat \<Rightarrow> ActiveTaskSlotManager" where
  "stepped_back k =
    \<lparr>slots = map (\<lambda>i. \<lparr>UserID = int i + 1, Username = [],
                         UpdatedAt = (if i = 0 then 100 else 0), SimHash = 0\<rparr>) [0..<k],
     userSlotIdx = (\<lambda>u. if 1 \<le> u \<and> u \<le> int k then Some [nat (u - 1)] else None),
     lruOrder = [0..<k]\<rparr>"

text \<open>One user holding \<open>k\<close> slots of fingerprint \<open>- 1\<close> (all bits set), slot \<open>i\<close> touched at
  time \<open>10 + i\<close>.\<close>

definition one_user :: "nat \<Rightarrow> ActiveTaskSlotManager" where
  "one_user k =
    \<lparr>slots = map (\<lambda>i. \<lparr>UserID = 1, Username = ''ann'', UpdatedAt = 10 + int i, SimHash = - 1\<rparr>) [0..<k],
     userSlotIdx = (if k = 0 then Map.empty else [1 \<mapsto> [0..<k]]),
     lruOrder = [0..<k]\<rparr>"

text \<open>The example \<open>two_users\<close> after user 8 got a second slot at time 105.\<close>

definition three_slots :: ActiveTaskSlotManager where
  "three_slots =
    \<lparr>slots = [\<lparr>UserID = 7, Username = ''bob'', UpdatedAt = 100, SimHash = 0\<rparr>,
              \<lparr>UserID = 8, Username = ''eve'', UpdatedAt = 101, SimHash = - 1\<rparr>,
              \<lparr>UserID = 8, Username = ''eva'', UpdatedAt = 105, SimHash = 0\<rparr>],
     userSlotIdx = [7 \<mapsto> [0], 8 \<mapsto> [1, 2]],
     lruOrder = [0, 1, 2]\<rparr>"

section \<open>The fingerprint\<close>

lemma vote_fold_aux:
  "n \<le> length v \<Longrightarrow>
   fold (\<lambda>i v. if drop_bit i h AND 1 = 1 then v[i := v ! i + 1] else v[i := v ! i - 1]) [0..<n] v
    = map (\<lambda>i. if i < n then (if bit (h::64 word) i then v ! i + 1 else v ! i - 1) else v ! i) [0..<length v]"
proof (induction n)
  case 0
  then show ?case by (simp add: map_nth)
next
  case (Suc n)
  have b: "(drop_bit n h AND 1 = 1) = bit h n"
    by (simp add: and_one_eq bit_iff_odd_drop_bit mod_2_eq_odd)
  show ?case using Suc
    by (auto simp: b nth_list_update intro!: nth_equalityI)
qed

lemma vote_eq: "length v = 64 \<Longrightarrow>
  vote h v = map (\<lambda>i. if bit h i then v ! i + 1 else v ! i - 1) [0..<64]"
  unfolding vote_def using vote_fold_aux[of 64 v h] by simp

lemma votes_fold:
  "length v = 64 \<Longrightarrow>
   fold (\<lambda>tok v. vote (tokenHash64 sha1 salt tok) v) toks v
     = map (\<lambda>i. v ! i + signed_vote sha1 salt toks i) [0..<64]"
proof (induction toks arbitrary: v)
  case Nil
  then show ?case by (auto simp: signed_vote_def intro!: nth_equalityI)
next
  case (Cons t toks)
  have l: "length (vote (tokenHash64 sha1 salt t) v) = 64"
    using Cons.prems by (simp add: vote_eq)
  show ?case
    using Cons.prems by (simp add: Cons.IH[OF l]) (simp add: vote_eq signed_vote_def)
qed

lemma out_fold_bit:
  "n \<le> 64 \<Longrightarrow>
   bit (fold (\<lambda>i out. if v ! i \<ge> (0::int) then out OR push_bit i 1 else out) [0..<n] (0::64 word)) j
     \<longleftrightarrow> j < n \<and> 0 \<le> v ! j"
proof (induction n)
  case 0
  then show ?case by simp
next
  case (Suc n)
  then show ?case
    by (auto simp: bit_or_iff bit_exp_iff possible_bit_word less_Suc_eq)
qed

lemma simhash64_bit:
  assumes "Fields data \<noteq> []" "i < 64"
  shows "bit (simhash64 sha1 salt data) i \<longleftrightarrow> 0 \<le> signed_vote sha1 salt (Fields data) i"
  using assms by (simp add: simhash64_def Let_def votes_fold out_fold_bit)

lemma simhash64_empty: "Fields data = [] \<Longrightarrow> simhash64 sha1 salt data = 0"
  by (simp add: simhash64_def)

lemma OnesCount64_card: "OnesCount64 w = card {i. bit w i}"
proof -
  have "length (filter (bit w) [0..<64]) = card ({i. bit w i} \<inter> set [0..<64])"
    by (rule distinct_length_filter) simp
  moreover have "{i. bit w i} \<inter> set [0..<64] = {i. bit w i}"
    by (auto dest: bit_imp_le_length)
  ultimately show ?thesis
    unfolding OnesCount64_def by (simp only:)
qed

lemma OnesCount64_le: "OnesCount64 w \<le> 64"
  unfolding OnesCount64_def using length_filter_le[of "bit w" "[0..<64]"] by simp

lemma hamming64_self: "hamming64 a a = 0"
  by (simp add: hamming64_def OnesCount64_def)


lemma signed_vote_mset:
  "mset ts = mset ts' \<Longrightarrow> signed_vote sha1 salt ts i = signed_vote sha1 salt ts' i"
proof -
  assume "mset ts = mset ts'"
  then have "mset (map (\<lambda>tok. if bit (tokenHash64 sha1 salt tok) i then 1 else - 1 :: int) ts)
      = mset (map (\<lambda>tok. if bit (tokenHash64 sha1 salt tok) i then 1 else - 1) ts')"
    by simp
  then show ?thesis
    unfolding signed_vote_def by (metis sum_mset_sum_list)
qed

lemma simhash64_mset:
  assumes "mset (Fields a) = mset (Fields b)"
  shows "simhash64 sha1 salt a = simhash64 sha1 salt b"
proof (cases "Fields a = []")
  case True
  with assms have "Fields b = []" by simp
  with True show ?thesis by (simp add: simhash64_empty)
next
  case False
  with assms have nb: "Fields b \<noteq> []" by auto
  show ?thesis
  proof (rule bit_word_eqI)
    fix i assume "i < LENGTH(64)"
    then have i: "i < 64" by simp
    show "bit (simhash64 sha1 salt a) i \<longleftrightarrow> bit (simhash64 sha1 salt b) i"
      using simhash64_bit[OF False i] simhash64_bit[OF nb i] signed_vote_mset[OF assms]
      by simp
  qed
qed

lemma fields_loop_nonempty: "[] \<notin> set (fields_loop cur s)"
  by (induction cur s rule: fields_loop.induct) (auto split: prod.splits)

lemma Fields_nonempty: "[] \<notin> set (Fields s)"
  by (simp add: Fields_def fields_loop_nonempty)

lemma decode_ascii: "byte c < 0x80 \<Longrightarrow> DecodeRuneInString (c # cs) = (byte c, 1)"
  by (simp add: DecodeRuneInString_def)

lemma first_lo: "first b = (sz, lo, hi) \<Longrightarrow> sz \<noteq> 1 \<Longrightarrow> 0x80 \<le> lo \<and> sz \<in> {2, 3, 4}"
  by (auto simp: first_def split: if_splits)

lemma decode_high:
  assumes "\<not> byte c < 0x80" and "DecodeRuneInString (c # cs) = (r, sz)"
  shows "\<forall>ch\<in>set (take (sz - 1) cs). 0x80 \<le> byte ch"
proof -
  obtain z lo hi where f: "first (byte c) = (z, lo, hi)" by (cases "first (byte c)") auto
  show ?thesis
  proof (cases "z = 1")
    case True
    then show ?thesis using assms f by (simp add: DecodeRuneInString_def)
  next
    case False
    from first_lo[OF f False] have lo: "0x80 \<le> lo" and z: "z \<in> {2, 3, 4}" by simp_all
    show ?thesis
    proof (cases "length (c # cs) < z")
      case True
      then show ?thesis using assms f False by (simp add: DecodeRuneInString_def)
    next
      case len: False
      have t1: "take (Suc 0) cs = [cs ! 0]" using len z by (cases cs) auto
      have t2: "2 < z \<Longrightarrow> take 2 cs = [cs ! 0, cs ! 1]"
        using len by (cases cs; cases "tl cs") auto
      have t3: "3 < z \<Longrightarrow> take 3 cs = [cs ! 0, cs ! 1, cs ! 2]"
        using len by (cases cs; cases "tl cs"; cases "tl (tl cs)") auto
      have m0: "map byte cs ! 0 = byte (cs ! 0)" using len z by (cases cs) auto
      show ?thesis
        using assms f False len lo z t1 t2 t3
        by (auto simp: DecodeRuneInString_def Let_def m0 split: if_splits)
    qed
  qed
qed


lemma decode_token_bytes:
  assumes "DecodeRuneInString (c # cs) = (r, sz)" and "\<not> IsSpace r"
  shows "\<forall>ch\<in>set (c # take (sz - 1) cs). \<not> ascii_space ch"
proof (cases "byte c < 0x80")
  case True
  then have "r = byte c" "sz = 1" using assms(1) by (simp_all add: decode_ascii)
  then show ?thesis using assms(2) True by (auto simp: IsSpace_def ascii_space_def)
next
  case False
  then have "\<not> ascii_space c" by (auto simp: ascii_space_def)
  moreover have "\<forall>ch\<in>set (take (sz - 1) cs). \<not> ascii_space ch"
    using decode_high[OF False assms(1)] by (auto simp: ascii_space_def)
  ultimately show ?thesis by simp
qed

lemma fields_loop_no_space:
  "\<forall>ch\<in>set cur. \<not> ascii_space ch \<Longrightarrow>
   \<forall>t\<in>set (fields_loop cur s). \<forall>ch\<in>set t. \<not> ascii_space ch"
proof (induction cur s rule: fields_loop.induct)
  case (1 cur)
  then show ?case by simp
next
  case (2 cur c cs)
  obtain r sz where d: "DecodeRuneInString (c # cs) = (r, sz)"
    by (cases "DecodeRuneInString (c # cs)") auto
  show ?case
  proof (cases "IsSpace r")
    case True
    have "\<forall>t\<in>set (fields_loop [] (drop (sz - 1) cs)). \<forall>ch\<in>set t. \<not> ascii_space ch"
      using "2.IH"(1)[OF d[symmetric] True] by simp
    then show ?thesis using d True "2.prems" by auto
  next
    case False
    have "\<forall>ch\<in>set (cur @ c # take (sz - 1) cs). \<not> ascii_space ch"
      using decode_token_bytes[OF d False] "2.prems" by auto
    from "2.IH"(2)[OF d[symmetric] False this]
    show ?thesis using d False by simp
  qed
qed

lemma Fields_no_space: "\<forall>t\<in>set (Fields s). \<forall>ch\<in>set t. \<not> ascii_space ch"
  unfolding Fields_def by (rule fields_loop_no_space) simp


lemma IsSpace_ascii: "byte c < 0x80 \<Longrightarrow> IsSpace (byte c) \<longleftrightarrow> ascii_space c"
  by (auto simp: IsSpace_def ascii_space_def)

lemma fields_loop_ascii:
  "\<forall>ch\<in>set s. byte ch < 0x80 \<Longrightarrow>
   concat (fields_loop cur s) = cur @ filter (\<lambda>c. \<not> ascii_space c) s"
proof (induction cur s rule: fields_loop.induct)
  case (1 cur)
  then show ?case by simp
next
  case (2 cur c cs)
  have c: "byte c < 0x80" and cs: "\<forall>ch\<in>set cs. byte ch < 0x80" using "2.prems" by simp_all
  have d: "DecodeRuneInString (c # cs) = (byte c, 1)" by (rule decode_ascii[OF c])
  show ?case
  proof (cases "ascii_space c")
    case True
    then have sp: "IsSpace (byte c)" using c by (simp add: IsSpace_ascii)
    have "concat (fields_loop [] (drop (1 - 1) cs)) = [] @ filter (\<lambda>c. \<not> ascii_space c) (drop (1 - 1) cs)"
      using "2.IH"(1)[OF d[symmetric] sp] cs by simp
    then show ?thesis using d sp True by simp
  next
    case False
    then have sp: "\<not> IsSpace (byte c)" using c by (simp add: IsSpace_ascii)
    have "concat (fields_loop (cur @ c # take (1 - 1) cs) (drop (1 - 1) cs))
        = (cur @ c # take (1 - 1) cs) @ filter (\<lambda>c. \<not> ascii_space c) (drop (1 - 1) cs)"
      using "2.IH"(2)[OF d[symmetric] sp] cs by simp
    then show ?thesis using d sp False by simp
  qed
qed

lemma Fields_ascii:
  "\<forall>ch\<in>set s. byte ch < 0x80 \<Longrightarrow> concat (Fields s) = filter (\<lambda>c. \<not> ascii_space c) s"
  using fields_loop_ascii[of s "[]"] by (simp add: Fields_def)

text \<open>
  Claim C7. The tokens of a text are not empty and contain no white space character; for
  an ASCII text they are, in order, the text without its white space. A text without tokens
  has the all-zero fingerprint. Otherwise bit \<open>i\<close> of the fingerprint is set exactly when the
  signed vote of the tokens for position \<open>i\<close> is at least 0. The distance of two fingerprints
  is the number of one bits of their exclusive or, it is at most 64, and a fingerprint is at
  distance 0 from itself.
\<close>

theorem simhash64_hamming64_spec:
  "[] \<notin> set (Fields data) \<and>
   (\<forall>t\<in>set (Fields data). \<forall>ch\<in>set t. \<not> ascii_space ch) \<and>
   ((\<forall>ch\<in>set data. byte ch < 0x80) \<longrightarrow>
      concat (Fields data) = filter (\<lambda>c. \<not> ascii_space c) data) \<and>
   (Fields data = [] \<longrightarrow> simhash64 sha1 salt data = 0) \<and>
   (Fields data \<noteq> [] \<longrightarrow>
      (\<forall>i<64. bit (simhash64 sha1 salt data) i
                 \<longleftrightarrow> 0 \<le> signed_vote sha1 salt (Fields data) i)) \<and>
   hamming64 a b = card {i. bit (a XOR b) i} \<and>
   hamming64 a b \<le> 64 \<and>
   hamming64 (simhash64 sha1 salt x) (simhash64 sha1 salt x) = 0"
proof -
  have "hamming64 a b = card {i. bit (a XOR b) i}"
    by (simp add: hamming64_def OnesCount64_card)
  moreover have "hamming64 a b \<le> 64"
    by (simp add: hamming64_def OnesCount64_le)
  moreover note Fields_nonempty[of data] Fields_no_space[of data]
  moreover have "(\<forall>ch\<in>set data. byte ch < 0x80) \<longrightarrow>
      concat (Fields data) = filter (\<lambda>c. \<not> ascii_space c) data"
    using Fields_ascii[of data] by blast
  ultimately show ?thesis
    by (simp add: simhash64_empty simhash64_bit hamming64_self)
qed

theorem simhash64_hamming64_spec_witness:
  "Fields '' \<newline> '' = [] \<and>
   simhash64 (drop 16) ''0123456789abcdef'' '' \<newline> '' = 0 \<and>
   Fields ''AAAAAAAA BBBBBBBB AAAAAAAA'' = [''AAAAAAAA'', ''BBBBBBBB'', ''AAAAAAAA''] \<and>
   (3::nat) < 64 \<and>
   (bit (simhash64 (drop 16) ''0123456789abcdef'' ''AAAAAAAA BBBBBBBB AAAAAAAA'') 3
       \<longleftrightarrow> 0 \<le> signed_vote (drop 16) ''0123456789abcdef''
                   (Fields ''AAAAAAAA BBBBBBBB AAAAAAAA'') 3) \<and>
   hamming64 (0x4141414141414141) (0x4343434343434343) \<le> 64"
proof -
  have e: "Fields '' \<newline> '' = []"
    by (simp add: Fields_def DecodeRuneInString_def byte_def IsSpace_def)
  have n: "Fields ''AAAAAAAA BBBBBBBB AAAAAAAA'' = [''AAAAAAAA'', ''BBBBBBBB'', ''AAAAAAAA'']"
    by (simp add: Fields_def DecodeRuneInString_def byte_def IsSpace_def)
  then have n': "Fields ''AAAAAAAA BBBBBBBB AAAAAAAA'' \<noteq> []" by simp
  have i: "(3::nat) < 64" by simp
  show ?thesis
    using e n n' i
      simhash64_hamming64_spec[of "'' \<newline> ''" "drop 16" "''0123456789abcdef''"
        "0x4141414141414141" "0x4343434343434343"]
      simhash64_hamming64_spec[of "''AAAAAAAA BBBBBBBB AAAAAAAA''" "drop 16" "''0123456789abcdef''"]
    by blast
qed

text \<open>
  Claim C10. The fingerprint depends on the multiset of the tokens only: two texts with the
  same tokens, in any order and with any white space between them, have the same
  fingerprint, at distance 0.
\<close>

theorem simhash64_token_multiset:
  "mset (Fields a) = mset (Fields b) \<Longrightarrow>
     simhash64 sha1 salt a = simhash64 sha1 salt b \<and>
     hamming64 (simhash64 sha1 salt a) (simhash64 sha1 salt b) = 0"
  using simhash64_mset[of a b sha1 salt] by (simp add: hamming64_self)

theorem simhash64_token_multiset_witness:
  "mset (Fields ''hello big world'') = mset (Fields ''\<newline>world  hello   big '') \<and>
   simhash64 (drop 16) ''0123456789abcdef'' ''hello big world''
     = simhash64 (drop 16) ''0123456789abcdef'' ''\<newline>world  hello   big '' \<and>
   hamming64 (simhash64 (drop 16) ''0123456789abcdef'' ''hello big world'')
     (simhash64 (drop 16) ''0123456789abcdef'' ''\<newline>world  hello   big '') = 0"
proof -
  have h: "mset (Fields ''hello big world'') = mset (Fields ''\<newline>world  hello   big '')"
    by (simp add: Fields_def DecodeRuneInString_def byte_def IsSpace_def)
  show ?thesis
    using h simhash64_token_multiset[OF h, of "drop 16" "''0123456789abcdef''"] by blast
qed

section \<open>The slot store\<close>

lemma user_slots_slots_update [simp]: "user_slots (m\<lparr>slots := x\<rparr>) v = user_slots m v"
  by (simp add: user_slots_def)

lemma user_slots_lruOrder_update [simp]: "user_slots (m\<lparr>lruOrder := x\<rparr>) v = user_slots m v"
  by (simp add: user_slots_def)

lemma user_slots_userSlotIdx_update [simp]:
  "user_slots (m\<lparr>userSlotIdx := f\<rparr>) v = (case f v of None \<Rightarrow> [] | Some l \<Rightarrow> l)"
  by (simp add: user_slots_def)

lemma user_slots_fold:
  "(case userSlotIdx m v of None \<Rightarrow> [] | Some l \<Rightarrow> l) = user_slots m v"
  by (simp add: user_slots_def)

lemma match_loop_find:
  "\<forall>i\<in>set l. i < length sl \<Longrightarrow>
   match_loop sl l h = Inr (find (\<lambda>i. hamming64 (SimHash (sl ! i)) h \<le> SimHashThreshold) l)"
  by (induction l) auto

lemma slots_removeFromUserSlotIdx [simp]:
  "slots (removeFromUserSlotIdx m u idx) = slots m"
  by (simp add: removeFromUserSlotIdx_def Let_def)

lemma lruOrder_removeFromUserSlotIdx [simp]:
  "lruOrder (removeFromUserSlotIdx m u idx) = lruOrder m"
  by (simp add: removeFromUserSlotIdx_def Let_def)

lemma user_slots_removeFromUserSlotIdx:
  "user_slots (removeFromUserSlotIdx m u idx) v =
     (if v = u then remove1 idx (user_slots m u) else user_slots m v)"
  by (auto simp: removeFromUserSlotIdx_def Let_def user_slots_def remove1_idem
           split: option.splits)

lemma stored_removeFromUserSlotIdx:
  "userSlotIdx (removeFromUserSlotIdx m u idx) v = Some [] \<Longrightarrow> userSlotIdx m v = Some []"
  by (auto simp: removeFromUserSlotIdx_def Let_def user_slots_def remove1_idem
           split: option.splits if_splits)

lemma overwrite_slot:
  "(s::TaskSlot)\<lparr>UserID := u, Username := n, UpdatedAt := t, SimHash := h\<rparr>
     = \<lparr>UserID = u, Username = n, UpdatedAt = t, SimHash = h\<rparr>"
  by (cases s) simp

lemma reuseSlot_result:
  assumes "idx < length (slots m)"
  shows "\<exists>m'. reuseSlot m idx u n t h = Inr m' \<and>
           slots m' = (slots m)[idx := \<lparr>UserID = u, Username = n, UpdatedAt = t, SimHash = h\<rparr>] \<and>
           lruOrder m' = remove1 idx (lruOrder m) @ [idx] \<and>
           (\<forall>v. user_slots m' v = reuse_lists m idx u v) \<and>
           (\<forall>v. userSlotIdx m' v = Some [] \<longrightarrow> userSlotIdx m v = Some [])"
  using assms
  by (auto simp: reuseSlot_def Let_def moveToLRUEnd_def overwrite_slot reuse_lists_def
        user_slots_removeFromUserSlotIdx user_slots_fold
        dest: stored_removeFromUserSlotIdx split: if_splits)

lemma lru_move_perm:
  assumes "distinct l" "set l = {..<n}" "idx < n"
  shows "distinct (remove1 idx l @ [idx]) \<and> set (remove1 idx l @ [idx]) = {..<n}"
  using assms by auto

lemma lru_move_sorted:
  assumes d: "distinct l" and r: "set l = {..<length sl}" and i: "idx < length sl"
    and s: "sorted (map (\<lambda>i. UpdatedAt (sl ! i)) l)"
    and c: "\<forall>x\<in>set sl. UpdatedAt x \<le> t" and t: "UpdatedAt ns = t"
  shows "sorted (map (\<lambda>i. UpdatedAt (sl[idx := ns] ! i)) (remove1 idx l @ [idx]))"
proof -
  have e: "map (\<lambda>i. UpdatedAt (sl[idx := ns] ! i)) (remove1 idx l)
         = map (\<lambda>i. UpdatedAt (sl ! i)) (remove1 idx l)"
    using d by (auto simp: nth_list_update)
  have b: "\<forall>j\<in>set (remove1 idx l). UpdatedAt (sl ! j) \<le> t"
  proof
    fix j assume "j \<in> set (remove1 idx l)"
    then have "j \<in> set l" using set_remove1_subset[of idx l] by blast
    then have "j < length sl" using r by auto
    then show "UpdatedAt (sl ! j) \<le> t" using c by auto
  qed
  show ?thesis
    using i t b sorted_map_remove1[OF s, of idx]
    by (simp add: e sorted_append)
qed

lemma index_consistent_reuse:
  assumes inv: "index_consistent m" and i: "idx < length (slots m)"
    and sl: "slots m' = (slots m)[idx := ns]" and ns: "UserID ns = u"
    and lru: "lruOrder m' = remove1 idx (lruOrder m) @ [idx]"
    and us: "\<forall>v. user_slots m' v = reuse_lists m idx u v"
    and st: "\<forall>v. userSlotIdx m' v = Some [] \<longrightarrow> userSlotIdx m v = Some []"
  shows "index_consistent m'"
proof -
  from inv have a: "\<forall>v. userSlotIdx m v \<noteq> Some []"
    and b: "\<And>v. distinct (user_slots m v)"
    and c: "\<And>v. set (user_slots m v) = {i. i < length (slots m) \<and> UserID (slots m ! i) = v}"
    and d: "distinct (lruOrder m)" and e: "set (lruOrder m) = {..<length (slots m)}"
    by (auto simp: index_consistent_def)
  have a': "\<forall>v. userSlotIdx m' v \<noteq> Some []" using a st by blast
  have b': "distinct (user_slots m' v)" for v
  proof (cases "UserID (slots m ! idx) = u")
    case True
    then show ?thesis using b[of v] by (simp add: us reuse_lists_def)
  next
    case False
    then have "idx \<notin> set (user_slots m u)" by (simp add: c)
    then show ?thesis
      using False b[of v] b[of u] by (auto simp: us reuse_lists_def)
  qed
  have c': "set (user_slots m' v) = {j. j < length (slots m') \<and> UserID (slots m' ! j) = v}" for v
  proof (cases "UserID (slots m ! idx) = u")
    case True
    then have "user_slots m' v = user_slots m v" by (simp add: us reuse_lists_def)
    moreover have "{j. j < length (slots m') \<and> UserID (slots m' ! j) = v}
        = {j. j < length (slots m) \<and> UserID (slots m ! j) = v}"
      using True ns i by (auto simp: sl nth_list_update)
    ultimately show ?thesis using c[of v] by simp
  next
    case False
    have new: "{j. j < length (slots m') \<and> UserID (slots m' ! j) = w}
        = (if w = u then insert idx {j. j < length (slots m) \<and> UserID (slots m ! j) = w}
           else {j. j < length (slots m) \<and> UserID (slots m ! j) = w} - {idx})" for w
      using ns i by (auto simp: sl nth_list_update)
    show ?thesis
    proof (cases "v = u")
      case True
      then show ?thesis using False c[of u] by (simp add: new us reuse_lists_def)
    next
      case vu: False
      show ?thesis
      proof (cases "v = UserID (slots m ! idx)")
        case True
        then show ?thesis
          using False vu c[of v] b[of v] by (simp add: new us reuse_lists_def)
      next
        case vo: False
        then have "idx \<notin> {j. j < length (slots m) \<and> UserID (slots m ! j) = v}" by simp
        then show ?thesis
          using False vu vo c[of v] by (simp add: new us reuse_lists_def)
      qed
    qed
  qed
  have d': "distinct (lruOrder m') \<and> set (lruOrder m') = {..<length (slots m')}"
    using lru_move_perm[OF d e i] by (simp add: lru sl)
  show ?thesis
    unfolding index_consistent_def using a' b' c' d' by blast
qed

lemma oldest_loop_first_min:
  assumes "\<forall>i\<in>set rest. i < length sl" and "ot = UpdatedAt (sl ! oi)"
  shows "\<exists>k pre post. oldest_loop sl rest oi ot = Inr (int k) \<and> oi # rest = pre @ k # post \<and>
           (\<forall>j\<in>set pre. UpdatedAt (sl ! k) < UpdatedAt (sl ! j)) \<and>
           (\<forall>j\<in>set post. UpdatedAt (sl ! k) \<le> UpdatedAt (sl ! j))"
  using assms
proof (induction rest arbitrary: oi ot)
  case Nil
  have "[oi] = [] @ oi # []" by simp
  then show ?case by (metis oldest_loop.simps(1) empty_iff empty_set)
next
  case (Cons idx rest)
  have r: "\<forall>i\<in>set rest. i < length sl" and i: "idx < length sl"
    using Cons.prems(1) by auto
  show ?case
  proof (cases "UpdatedAt (sl ! idx) < ot")
    case True
    from Cons.IH[OF r refl, of idx]
    obtain k pre post where
      k: "oldest_loop sl rest idx (UpdatedAt (sl ! idx)) = Inr (int k)"
      and d: "idx # rest = pre @ k # post"
      and p: "\<forall>j\<in>set pre. UpdatedAt (sl ! k) < UpdatedAt (sl ! j)"
      and q: "\<forall>j\<in>set post. UpdatedAt (sl ! k) \<le> UpdatedAt (sl ! j)"
      by blast
    have "idx \<in> set (pre @ k # post)" using d by (metis list.set_intros(1))
    then have "UpdatedAt (sl ! k) \<le> UpdatedAt (sl ! idx)" using p q by auto
    then have lt: "UpdatedAt (sl ! k) < UpdatedAt (sl ! oi)" using True Cons.prems(2) by simp
    have "oi # idx # rest = (oi # pre) @ k # post" using d by simp
    moreover have "\<forall>j\<in>set (oi # pre). UpdatedAt (sl ! k) < UpdatedAt (sl ! j)"
      using p lt by simp
    moreover have "oldest_loop sl (idx # rest) oi ot = Inr (int k)"
      using True i k by simp
    ultimately show ?thesis using q by blast
  next
    case False
    from Cons.IH[OF r Cons.prems(2)]
    obtain k pre post where
      k: "oldest_loop sl rest oi ot = Inr (int k)"
      and d: "oi # rest = pre @ k # post"
      and p: "\<forall>j\<in>set pre. UpdatedAt (sl ! k) < UpdatedAt (sl ! j)"
      and q: "\<forall>j\<in>set post. UpdatedAt (sl ! k) \<le> UpdatedAt (sl ! j)"
      by blast
    have res: "oldest_loop sl (idx # rest) oi ot = Inr (int k)"
      using False i k by simp
    have ge: "UpdatedAt (sl ! oi) \<le> UpdatedAt (sl ! idx)"
      using False Cons.prems(2) by simp
    show ?thesis
    proof (cases pre)
      case Nil
      then have "k = oi" "post = rest" using d by auto
      then have "oi # idx # rest = [] @ k # (idx # rest)"
        and "\<forall>j\<in>set (idx # rest). UpdatedAt (sl ! k) \<le> UpdatedAt (sl ! j)"
        using q ge by auto
      then show ?thesis using res by (metis empty_iff empty_set)
    next
      case (Cons a pre')
      then have a: "a = oi" and d': "rest = pre' @ k # post" using d by auto
      have "UpdatedAt (sl ! k) < UpdatedAt (sl ! oi)" using p Cons a by simp
      then have "\<forall>j\<in>set (oi # idx # pre'). UpdatedAt (sl ! k) < UpdatedAt (sl ! j)"
        using p Cons ge by auto
      moreover have "oi # idx # rest = (oi # idx # pre') @ k # post" using d' by simp
      ultimately show ?thesis using res q by blast
    qed
  qed
qed

lemma findOldestUserSlot_first_min:
  assumes "\<forall>i\<in>set (user_slots m u). i < length (slots m)" and "user_slots m u \<noteq> []"
  shows "\<exists>k pre post. findOldestUserSlot m u = Inr (int k) \<and> user_slots m u = pre @ k # post \<and>
           (\<forall>j\<in>set pre. UpdatedAt (slots m ! k) < UpdatedAt (slots m ! j)) \<and>
           (\<forall>j\<in>set post. UpdatedAt (slots m ! k) \<le> UpdatedAt (slots m ! j))"
proof -
  obtain a rest where l: "user_slots m u = a # rest"
    using assms(2) by (cases "user_slots m u") auto
  have "\<forall>i\<in>set rest. i < length (slots m)" and a: "a < length (slots m)"
    using assms(1) l by auto
  from oldest_loop_first_min[OF this(1) refl, of a]
  show ?thesis using a by (simp add: findOldestUserSlot_def l)
qed

lemma within_capacity_reuse:
  assumes cap: "within_capacity m"
    and sl: "slots m' = (slots m)[idx := ns]"
    and us: "\<forall>v. user_slots m' v = reuse_lists m idx u v"
    and room: "UserID (slots m ! idx) = u \<or> length (user_slots m u) < MaxUserSlots"
  shows "within_capacity m'"
proof -
  have g: "length (slots m') \<le> MaxGlobalSlots"
    using cap by (simp add: within_capacity_def sl)
  have "length (user_slots m' v) \<le> MaxUserSlots" for v
  proof -
    have v: "length (user_slots m v) \<le> MaxUserSlots"
      using cap by (simp add: within_capacity_def)
    have "length (remove1 idx (user_slots m v)) \<le> length (user_slots m v)"
      by (simp add: length_remove1)
    then show ?thesis
      using v room by (auto simp: us reuse_lists_def)
  qed
  then show ?thesis using g by (simp add: within_capacity_def)
qed

lemma lru_sorted_reuse:
  assumes inv: "index_consistent m" and i: "idx < length (slots m)"
    and sl: "slots m' = (slots m)[idx := ns]" and t: "UpdatedAt ns = now"
    and lru: "lruOrder m' = remove1 idx (lruOrder m) @ [idx]"
    and s: "lru_sorted m" and c: "clock_ok m now"
  shows "lru_sorted m' \<and> clock_ok m' now"
proof -
  from inv have d: "distinct (lruOrder m)" and e: "set (lruOrder m) = {..<length (slots m)}"
    by (auto simp: index_consistent_def)
  have "lru_sorted m'"
    unfolding lru_sorted_def sl lru
    using lru_move_sorted[OF d e i _ _ t] s c by (simp add: lru_sorted_def clock_ok_def)
  moreover have "clock_ok m' now"
    using c t set_update_subset_insert[of "slots m" idx ns]
    by (auto simp: clock_ok_def sl)
  ultimately show ?thesis by simp
qed

lemma index_consistent_new:
  assumes inv: "index_consistent m"
    and sl: "slots m' = slots m @ [ns]" and ns: "UserID ns = u"
    and lru: "lruOrder m' = lruOrder m @ [length (slots m)]"
    and us: "userSlotIdx m' = (userSlotIdx m)(u \<mapsto> user_slots m u @ [length (slots m)])"
  shows "index_consistent m'"
proof -
  from inv have a: "\<forall>v. userSlotIdx m v \<noteq> Some []"
    and b: "\<And>v. distinct (user_slots m v)"
    and c: "\<And>v. set (user_slots m v) = {i. i < length (slots m) \<and> UserID (slots m ! i) = v}"
    and d: "distinct (lruOrder m)" and e: "set (lruOrder m) = {..<length (slots m)}"
    by (auto simp: index_consistent_def)
  have l: "user_slots m' v = (if v = u then user_slots m u @ [length (slots m)] else user_slots m v)" for v
    by (simp add: user_slots_def us)
  have a': "\<forall>v. userSlotIdx m' v \<noteq> Some []" using a by (simp add: us)
  have "length (slots m) \<notin> set (user_slots m u)" by (simp add: c)
  then have b': "distinct (user_slots m' v)" for v using b[of v] b[of u] by (simp add: l)
  have c': "set (user_slots m' v) = {j. j < length (slots m') \<and> UserID (slots m' ! j) = v}" for v
  proof -
    have new: "{j. j < Suc (length (slots m)) \<and> UserID ((slots m @ [ns]) ! j) = w}
        = (if w = u then insert (length (slots m)) {j. j < length (slots m) \<and> UserID (slots m ! j) = w}
           else {j. j < length (slots m) \<and> UserID (slots m ! j) = w})" for w
      using ns by (auto simp: nth_append less_Suc_eq)
    show ?thesis by (simp add: l sl new c)
  qed
  have d': "distinct (lruOrder m') \<and> set (lruOrder m') = {..<length (slots m')}"
  proof -
    have "length (slots m) \<notin> set (lruOrder m)" by (simp add: e)
    then show ?thesis by (simp add: lru sl d e lessThan_Suc)
  qed
  show ?thesis
    unfolding index_consistent_def using a' b' c' d' by blast
qed

lemma lru_sorted_new:
  assumes inv: "index_consistent m"
    and sl: "slots m' = slots m @ [ns]" and t: "UpdatedAt ns = now"
    and lru: "lruOrder m' = lruOrder m @ [length (slots m)]"
    and s: "lru_sorted m" and c: "clock_ok m now"
  shows "lru_sorted m' \<and> clock_ok m' now"
proof -
  from inv have e: "set (lruOrder m) = {..<length (slots m)}"
    by (auto simp: index_consistent_def)
  have m: "map (\<lambda>i. UpdatedAt ((slots m @ [ns]) ! i)) (lruOrder m)
         = map (\<lambda>i. UpdatedAt (slots m ! i)) (lruOrder m)"
    using e by (auto simp: nth_append)
  have "\<forall>j\<in>set (lruOrder m). UpdatedAt (slots m ! j) \<le> now"
    using e c by (auto simp: clock_ok_def)
  then have "lru_sorted m'"
    using s t by (simp add: lru_sorted_def sl lru m sorted_append)
  moreover have "clock_ok m' now" using c t by (auto simp: clock_ok_def sl)
  ultimately show ?thesis by simp
qed

lemma similar_fun:
  "(\<lambda>i. hamming64 (SimHash (slots m ! i)) h \<le> SimHashThreshold) = similar m h"
  by (simp add: similar_def fun_eq_iff)

lemma valid_indices:
  "index_consistent m \<Longrightarrow> \<forall>i\<in>set (user_slots m u). i < length (slots m)"
  by (simp add: index_consistent_def)

lemma RecordTask_match:
  assumes "\<forall>i\<in>set (user_slots m u). i < length (slots m)"
    and "find (similar m (simhash64 sha1 salt data)) (user_slots m u) = Some idx"
  shows "RecordTask sha1 salt m u n now data =
     Inr (moveToLRUEnd
           (m\<lparr>slots := (slots m)[idx :=
               (slots m ! idx)\<lparr>UpdatedAt := now, SimHash := simhash64 sha1 salt data,
                               Username := n\<rparr>]\<rparr>) idx)"
  using assms by (simp add: RecordTask_def Let_def match_loop_find similar_fun)

lemma RecordTask_user_cap:
  assumes v: "\<forall>i\<in>set (user_slots m u). i < length (slots m)"
    and f: "find (similar m (simhash64 sha1 salt data)) (user_slots m u) = None"
    and l: "MaxUserSlots \<le> length (user_slots m u)"
  shows "\<exists>k pre post. user_slots m u = pre @ k # post \<and>
           (\<forall>j\<in>set pre. UpdatedAt (slots m ! k) < UpdatedAt (slots m ! j)) \<and>
           (\<forall>j\<in>set post. UpdatedAt (slots m ! k) \<le> UpdatedAt (slots m ! j)) \<and>
           RecordTask sha1 salt m u n now data
             = reuseSlot m k u n now (simhash64 sha1 salt data)"
proof -
  have "user_slots m u \<noteq> []" using l by (auto simp: MaxUserSlots_def)
  from findOldestUserSlot_first_min[OF v this]
  obtain k pre post where o: "findOldestUserSlot m u = Inr (int k)"
    and d: "user_slots m u = pre @ k # post"
    and p: "\<forall>j\<in>set pre. UpdatedAt (slots m ! k) < UpdatedAt (slots m ! j)"
    and q: "\<forall>j\<in>set post. UpdatedAt (slots m ! k) \<le> UpdatedAt (slots m ! j)"
    by blast
  have "RecordTask sha1 salt m u n now data = reuseSlot m k u n now (simhash64 sha1 salt data)"
    using f l o by (simp add: RecordTask_def Let_def match_loop_find[OF v] similar_fun)
  then show ?thesis using d p q by blast
qed

lemma RecordTask_global_cap:
  assumes v: "\<forall>i\<in>set (user_slots m u). i < length (slots m)"
    and f: "find (similar m (simhash64 sha1 salt data)) (user_slots m u) = None"
    and l: "length (user_slots m u) < MaxUserSlots"
    and g: "MaxGlobalSlots \<le> length (slots m)" and e: "lruOrder m \<noteq> []"
  shows "RecordTask sha1 salt m u n now data
           = reuseSlot m (hd (lruOrder m)) u n now (simhash64 sha1 salt data)"
  using f l g e
  by (simp add: RecordTask_def Let_def match_loop_find[OF v] similar_fun global_or_new_def new_slot_def)

lemma RecordTask_new:
  assumes v: "\<forall>i\<in>set (user_slots m u). i < length (slots m)"
    and f: "find (similar m (simhash64 sha1 salt data)) (user_slots m u) = None"
    and l: "length (user_slots m u) < MaxUserSlots"
    and g: "length (slots m) < MaxGlobalSlots"
  shows "RecordTask sha1 salt m u n now data =
     Inr (m\<lparr>slots := slots m @ [\<lparr>UserID = u, Username = n, UpdatedAt = now,
                                   SimHash = simhash64 sha1 salt data\<rparr>],
            userSlotIdx := (userSlotIdx m)(u \<mapsto> user_slots m u @ [length (slots m)]),
            lruOrder := lruOrder m @ [length (slots m)]\<rparr>)"
  using f l g
  by (simp add: RecordTask_def Let_def match_loop_find[OF v] similar_fun global_or_new_def new_slot_def)

lemma lru_nonempty:
  "index_consistent m \<Longrightarrow> slots m \<noteq> [] \<Longrightarrow> lruOrder m \<noteq> [] \<and> hd (lruOrder m) < length (slots m)"
proof -
  assume a: "index_consistent m" "slots m \<noteq> []"
  then have s: "set (lruOrder m) = {..<length (slots m)}" by (simp add: index_consistent_def)
  then have "0 \<in> set (lruOrder m)" using a(2) by simp
  then have n: "lruOrder m \<noteq> []" by auto
  then have "hd (lruOrder m) \<in> set (lruOrder m)" by simp
  then show ?thesis using n s by simp
qed

lemma reuse_invariants:
  assumes inv: "index_consistent m" and i: "idx < length (slots m)"
    and room: "UserID (slots m ! idx) = u \<or> length (user_slots m u) < MaxUserSlots"
  shows "\<exists>m'. reuseSlot m idx u n now h = Inr m' \<and> index_consistent m' \<and>
           (within_capacity m \<longrightarrow> within_capacity m') \<and>
           (lru_sorted m \<and> clock_ok m now \<longrightarrow> lru_sorted m' \<and> clock_ok m' now)"
proof -
  from reuseSlot_result[OF i, where u=u and n=n and t=now and h=h]
  obtain m' where r: "reuseSlot m idx u n now h = Inr m'"
    and sl: "slots m' = (slots m)[idx := \<lparr>UserID = u, Username = n, UpdatedAt = now, SimHash = h\<rparr>]"
    and lru: "lruOrder m' = remove1 idx (lruOrder m) @ [idx]"
    and us: "\<forall>v. user_slots m' v = reuse_lists m idx u v"
    and st: "\<forall>v. userSlotIdx m' v = Some [] \<longrightarrow> userSlotIdx m v = Some []"
    by blast
  have "index_consistent m'"
    by (rule index_consistent_reuse[OF inv i sl _ lru us st]) simp
  moreover have "within_capacity m \<Longrightarrow> within_capacity m'"
    by (rule within_capacity_reuse[OF _ sl us room])
  moreover have "lru_sorted m \<Longrightarrow> clock_ok m now \<Longrightarrow> lru_sorted m' \<and> clock_ok m' now"
    by (rule lru_sorted_reuse[OF inv i sl _ lru]) simp_all
  ultimately show ?thesis using r by blast
qed

lemma match_invariants:
  assumes inv: "index_consistent m" and i: "idx < length (slots m)"
    and m': "m' = moveToLRUEnd (m\<lparr>slots := (slots m)[idx :=
                  (slots m ! idx)\<lparr>UpdatedAt := now, SimHash := h, Username := n\<rparr>]\<rparr>) idx"
  shows "index_consistent m' \<and> (within_capacity m \<longrightarrow> within_capacity m') \<and>
           (lru_sorted m \<and> clock_ok m now \<longrightarrow> lru_sorted m' \<and> clock_ok m' now)"
proof -
  let ?ns = "(slots m ! idx)\<lparr>UpdatedAt := now, SimHash := h, Username := n\<rparr>"
  have sl: "slots m' = (slots m)[idx := ?ns]" by (simp add: m' moveToLRUEnd_def)
  have lru: "lruOrder m' = remove1 idx (lruOrder m) @ [idx]" by (simp add: m' moveToLRUEnd_def)
  have mp: "userSlotIdx m' = userSlotIdx m" by (simp add: m' moveToLRUEnd_def)
  have us: "\<forall>v. user_slots m' v = reuse_lists m idx (UserID (slots m ! idx)) v"
    by (simp add: reuse_lists_def user_slots_def mp)
  have st: "\<forall>v. userSlotIdx m' v = Some [] \<longrightarrow> userSlotIdx m v = Some []"
    by (simp add: mp)
  have "index_consistent m'"
    by (rule index_consistent_reuse[OF inv i sl _ lru us st]) simp
  moreover have "within_capacity m \<Longrightarrow> within_capacity m'"
    by (rule within_capacity_reuse[OF _ sl us]) simp_all
  moreover have "lru_sorted m \<Longrightarrow> clock_ok m now \<Longrightarrow> lru_sorted m' \<and> clock_ok m' now"
    by (rule lru_sorted_reuse[OF inv i sl _ lru]) simp_all
  ultimately show ?thesis by blast
qed

lemma new_invariants:
  assumes inv: "index_consistent m"
    and l: "length (user_slots m u) < MaxUserSlots" and g: "length (slots m) < MaxGlobalSlots"
    and m': "m' = m\<lparr>slots := slots m @ [\<lparr>UserID = u, Username = n, UpdatedAt = now, SimHash = h\<rparr>],
            userSlotIdx := (userSlotIdx m)(u \<mapsto> user_slots m u @ [length (slots m)]),
            lruOrder := lruOrder m @ [length (slots m)]\<rparr>"
  shows "index_consistent m' \<and> (within_capacity m \<longrightarrow> within_capacity m') \<and>
           (lru_sorted m \<and> clock_ok m now \<longrightarrow> lru_sorted m' \<and> clock_ok m' now)"
proof -
  let ?ns = "\<lparr>UserID = u, Username = n, UpdatedAt = now, SimHash = h\<rparr>"
  have sl: "slots m' = slots m @ [?ns]" by (simp add: m')
  have lru: "lruOrder m' = lruOrder m @ [length (slots m)]" by (simp add: m')
  have mp: "userSlotIdx m' = (userSlotIdx m)(u \<mapsto> user_slots m u @ [length (slots m)])"
    by (simp add: m')
  have "index_consistent m'"
    by (rule index_consistent_new[OF inv sl _ lru mp]) simp
  moreover have "within_capacity m'" if c: "within_capacity m"
  proof -
    have "length (user_slots m' v) \<le> MaxUserSlots" for v
      using c l by (simp add: user_slots_def[of m'] mp within_capacity_def user_slots_fold)
    then show ?thesis using g by (simp add: within_capacity_def sl)
  qed
  moreover have "lru_sorted m \<Longrightarrow> clock_ok m now \<Longrightarrow> lru_sorted m' \<and> clock_ok m' now"
    by (rule lru_sorted_new[OF inv sl _ lru]) simp_all
  ultimately show ?thesis by blast
qed

lemma RecordTask_invariants:
  assumes inv: "index_consistent m"
  shows "\<exists>m'. RecordTask sha1 salt m u n now data = Inr m' \<and> index_consistent m' \<and>
           (within_capacity m \<longrightarrow> within_capacity m') \<and>
           (lru_sorted m \<and> clock_ok m now \<longrightarrow> lru_sorted m' \<and> clock_ok m' now)"
proof -
  let ?h = "simhash64 sha1 salt data"
  note v = valid_indices[OF inv, of u]
  show ?thesis
  proof (cases "find (similar m ?h) (user_slots m u)")
    case (Some idx)
    then have "idx \<in> set (user_slots m u)" by (auto simp: find_Some_iff)
    then have i: "idx < length (slots m)" using v by simp
    show ?thesis
      using match_invariants[OF inv i refl, where now=now and h="?h" and n=n]
        RecordTask_match[OF v Some, where n=n and now=now]
      by simp
  next
    case None
    show ?thesis
    proof (cases "MaxUserSlots \<le> length (user_slots m u)")
      case True
      from RecordTask_user_cap[OF v None True, where n=n and now=now]
      obtain k pre post where d: "user_slots m u = pre @ k # post"
        and r: "RecordTask sha1 salt m u n now data = reuseSlot m k u n now ?h"
        by blast
      have ks: "k \<in> set (user_slots m u)" by (simp add: d)
      then have k: "k < length (slots m)" and o: "UserID (slots m ! k) = u"
        using inv by (auto simp: index_consistent_def)
      show ?thesis
        using reuse_invariants[OF inv k, where u=u and n=n and now=now and h="?h"] o by (simp add: r)
    next
      case False
      then have l: "length (user_slots m u) < MaxUserSlots" by simp
      show ?thesis
      proof (cases "MaxGlobalSlots \<le> length (slots m)")
        case True
        then have "slots m \<noteq> []" by (auto simp: MaxGlobalSlots_def)
        from lru_nonempty[OF inv this]
        have e: "lruOrder m \<noteq> []" and i: "hd (lruOrder m) < length (slots m)" by simp_all
        show ?thesis
          using reuse_invariants[OF inv i, where u=u and n=n and now=now and h="?h"] l
          by (simp add: RecordTask_global_cap[OF v None l True e])
      next
        case False
        then have g: "length (slots m) < MaxGlobalSlots" by simp
        show ?thesis
          using new_invariants[OF inv l g refl, where n=n and now=now and h="?h"]
          by (simp add: RecordTask_new[OF v None l g])
      qed
    qed
  qed
qed

lemma index_consistent_empty: "index_consistent empty_manager"
  by (simp add: index_consistent_def empty_manager_def user_slots_def)

lemma within_capacity_empty: "within_capacity empty_manager"
  by (simp add: within_capacity_def empty_manager_def user_slots_def)

lemma reachable_invariants:
  "reachable sha1 salt m \<Longrightarrow> index_consistent m \<and> within_capacity m"
proof (induction rule: reachable.induct)
  case reachable_empty
  show ?case by (simp add: index_consistent_empty within_capacity_empty)
next
  case (reachable_step m userID uname now data m')
  then show ?case
    using RecordTask_invariants[where m=m and ?sha1.0=sha1 and salt=salt and u=userID and n=uname
        and now=now and data=data]
    by auto
qed

lemma card_owned:
  "index_consistent m \<Longrightarrow> card (owned m u) = length (user_slots m u)"
  by (metis distinct_card index_consistent_def owned_def)

lemma find_Some_split:
  "find P xs = Some x \<Longrightarrow> \<exists>pre post. xs = pre @ x # post \<and> P x \<and> (\<forall>j\<in>set pre. \<not> P j)"
proof (induction xs)
  case Nil
  then show ?case by simp
next
  case (Cons a xs)
  show ?case
  proof (cases "P a")
    case True
    then have "a # xs = [] @ x # xs \<and> P x" using Cons.prems by simp
    then show ?thesis by (metis empty_iff empty_set)
  next
    case False
    then have "find P xs = Some x" using Cons.prems by simp
    from Cons.IH[OF this] obtain pre post where
      "xs = pre @ x # post" "P x" "\<forall>j\<in>set pre. \<not> P j" by blast
    then have "a # xs = (a # pre) @ x # post \<and> P x \<and> (\<forall>j\<in>set (a # pre). \<not> P j)"
      using False by simp
    then show ?thesis by blast
  qed
qed

lemma sorted_map_hd_le:
  "sorted (map f l) \<Longrightarrow> i \<in> set l \<Longrightarrow> f (hd l) \<le> f i"
  by (cases l) auto

lemma lru_head_oldest:
  assumes "index_consistent m" "lru_sorted m" "i < length (slots m)"
  shows "UpdatedAt (slots m ! hd (lruOrder m)) \<le> UpdatedAt (slots m ! i)"
proof -
  have "i \<in> set (lruOrder m)" using assms(1,3) by (simp add: index_consistent_def)
  then show ?thesis
    using assms(2) sorted_map_hd_le[of "\<lambda>i. UpdatedAt (slots m ! i)" "lruOrder m" i]
    by (simp add: lru_sorted_def)
qed

lemma index_consistent_partition:
  assumes "index_consistent m"
  shows "(\<forall>v w. v \<noteq> w \<longrightarrow> set (user_slots m v) \<inter> set (user_slots m w) = {}) \<and>
         (\<Union>v. set (user_slots m v)) = {..<length (slots m)}"
proof -
  have c: "\<And>v. set (user_slots m v) = {i. i < length (slots m) \<and> UserID (slots m ! i) = v}"
    using assms by (simp add: index_consistent_def)
  show ?thesis by (auto simp: c)
qed

lemma lru_sorted_empty: "lru_sorted empty_manager"
  by (simp add: lru_sorted_def empty_manager_def)

text \<open>
  Claim C1. In every state reachable from the empty manager, \<open>RecordTask\<close> returns a state
  for every user, name, time and text (it does not panic), and in that state the store
  holds at most 1000 slots and every user at most 50, counted on the membership list and on
  the slots themselves.
\<close>

theorem RecordTask_capacity:
  assumes "reachable sha1 salt m"
  shows "\<exists>m'. RecordTask sha1 salt m u n now data = Inr m' \<and>
           length (slots m') \<le> 1000 \<and>
           (\<forall>v. length (user_slots m' v) \<le> 50 \<and> card (owned m' v) \<le> 50)"
proof -
  from reachable_invariants[OF assms]
  have inv: "index_consistent m" and cap: "within_capacity m" by simp_all
  from RecordTask_invariants[OF inv, where ?sha1.0=sha1 and salt=salt and u=u and n=n
      and now=now and data=data] cap
  obtain m' where r: "RecordTask sha1 salt m u n now data = Inr m'"
    and inv': "index_consistent m'" and cap': "within_capacity m'"
    by blast
  have "length (slots m') \<le> 1000"
    using cap' by (simp add: within_capacity_def MaxGlobalSlots_def)
  moreover have "length (user_slots m' v) \<le> 50 \<and> card (owned m' v) \<le> 50" for v
    using cap' card_owned[OF inv', of v] by (simp add: within_capacity_def MaxUserSlots_def)
  ultimately show ?thesis using r by blast
qed

lemma reachable_mono_invariants:
  "reachable_mono sha1 salt m \<Longrightarrow> index_consistent m \<and> within_capacity m \<and> lru_sorted m"
proof (induction rule: reachable_mono.induct)
  case mono_empty
  show ?case by (simp add: index_consistent_empty within_capacity_empty lru_sorted_empty)
next
  case (mono_step m now userID uname data m')
  then show ?case
    using RecordTask_invariants[where m=m and ?sha1.0=sha1 and salt=salt and u=userID and n=uname
        and now=now and data=data]
    by auto
qed

lemma reachable_mono_reachable:
  "reachable_mono sha1 salt m \<Longrightarrow> reachable sha1 salt m"
  by (induction rule: reachable_mono.induct) (auto intro: reachable.intros)

text \<open>
  Claim C2, amended. The empty manager is index consistent, and \<open>RecordTask\<close> keeps index
  consistency whatever the clock reads: the membership lists stay pairwise disjoint,
  without repetition, never stored empty, their union is the set of allocated positions and
  each listed slot names its user; the recency list holds every allocated position once.
  When the call reads a time no earlier than the stored timestamps, it also keeps the
  recency list in timestamp order, so that no slot is older than its head; this holds in
  every state reached by calls during which the clock never went back.
\<close>

theorem RecordTask_index_consistency:
  assumes "index_consistent m"
  shows "index_consistent empty_manager \<and> lru_sorted empty_manager \<and>
    (\<exists>m'. RecordTask sha1 salt m u n now data = Inr m' \<and>
      index_consistent m' \<and>
      (\<forall>v w. v \<noteq> w \<longrightarrow> set (user_slots m' v) \<inter> set (user_slots m' w) = {}) \<and>
      (\<Union>v. set (user_slots m' v)) = {..<length (slots m')} \<and>
      (\<forall>v. distinct (user_slots m' v) \<and> userSlotIdx m' v \<noteq> Some [] \<and>
           (\<forall>i\<in>set (user_slots m' v). UserID (slots m' ! i) = v)) \<and>
      distinct (lruOrder m') \<and> set (lruOrder m') = {..<length (slots m')} \<and>
      (lru_sorted m \<and> clock_ok m now \<longrightarrow>
         lru_sorted m' \<and> clock_ok m' now \<and>
         (\<forall>i<length (slots m').
            UpdatedAt (slots m' ! hd (lruOrder m')) \<le> UpdatedAt (slots m' ! i)))) \<and>
    (reachable_mono sha1 salt m \<longrightarrow>
       lru_sorted m \<and>
       (\<forall>i<length (slots m). UpdatedAt (slots m ! hd (lruOrder m)) \<le> UpdatedAt (slots m ! i)))"
proof -
  from RecordTask_invariants[OF assms, where ?sha1.0=sha1 and salt=salt and u=u and n=n
      and now=now and data=data]
  obtain m' where r: "RecordTask sha1 salt m u n now data = Inr m'"
    and inv': "index_consistent m'"
    and s': "lru_sorted m \<and> clock_ok m now \<longrightarrow> lru_sorted m' \<and> clock_ok m' now"
    by blast
  have a: "\<forall>v. distinct (user_slots m' v) \<and> userSlotIdx m' v \<noteq> Some [] \<and>
           (\<forall>i\<in>set (user_slots m' v). UserID (slots m' ! i) = v)"
    using inv' by (simp add: index_consistent_def)
  have b: "distinct (lruOrder m') \<and> set (lruOrder m') = {..<length (slots m')}"
    using inv' by (simp add: index_consistent_def)
  have c: "lru_sorted m \<and> clock_ok m now \<longrightarrow>
         lru_sorted m' \<and> clock_ok m' now \<and>
         (\<forall>i<length (slots m').
            UpdatedAt (slots m' ! hd (lruOrder m')) \<le> UpdatedAt (slots m' ! i))"
    using s' lru_head_oldest[OF inv'] by blast
  have d: "reachable_mono sha1 salt m \<longrightarrow>
       lru_sorted m \<and>
       (\<forall>i<length (slots m). UpdatedAt (slots m ! hd (lruOrder m)) \<le> UpdatedAt (slots m ! i))"
    using reachable_mono_invariants[of sha1 salt m] lru_head_oldest[OF assms] by blast
  have "\<exists>m'. RecordTask sha1 salt m u n now data = Inr m' \<and>
      index_consistent m' \<and>
      (\<forall>v w. v \<noteq> w \<longrightarrow> set (user_slots m' v) \<inter> set (user_slots m' w) = {}) \<and>
      (\<Union>v. set (user_slots m' v)) = {..<length (slots m')} \<and>
      (\<forall>v. distinct (user_slots m' v) \<and> userSlotIdx m' v \<noteq> Some [] \<and>
           (\<forall>i\<in>set (user_slots m' v). UserID (slots m' ! i) = v)) \<and>
      distinct (lruOrder m') \<and> set (lruOrder m') = {..<length (slots m')} \<and>
      (lru_sorted m \<and> clock_ok m now \<longrightarrow>
         lru_sorted m' \<and> clock_ok m' now \<and>
         (\<forall>i<length (slots m').
            UpdatedAt (slots m' ! hd (lruOrder m')) \<le> UpdatedAt (slots m' ! i)))"
    using r inv' a b c index_consistent_partition[OF inv'] by blast
  then show ?thesis using d index_consistent_empty lru_sorted_empty by blast
qed

lemma Fields_Nil: "Fields [] = []"
  by (simp add: Fields_def)

lemma simhash64_Nil: "simhash64 sha1 salt [] = 0"
  by (simp add: simhash64_def Fields_Nil)

lemma RecordTask_first:
  "RecordTask sha1 salt empty_manager u n now data =
     Inr \<lparr>slots = [\<lparr>UserID = u, Username = n, UpdatedAt = now,
                       SimHash = simhash64 sha1 salt data\<rparr>],
          userSlotIdx = [u \<mapsto> [0]], lruOrder = [0]\<rparr>"
  by (simp add: RecordTask_def empty_manager_def user_slots_def global_or_new_def new_slot_def
        MaxUserSlots_def MaxGlobalSlots_def)

theorem RecordTask_capacity_witness:
  "reachable (drop 16) ''0123456789abcdef''
     \<lparr>slots = [\<lparr>UserID = 7, Username = ''bob'', UpdatedAt = 100, SimHash = 0\<rparr>],
      userSlotIdx = [7 \<mapsto> [0]], lruOrder = [0]\<rparr> \<and>
   (\<exists>m'. RecordTask (drop 16) ''0123456789abcdef''
       \<lparr>slots = [\<lparr>UserID = 7, Username = ''bob'', UpdatedAt = 100, SimHash = 0\<rparr>],
        userSlotIdx = [7 \<mapsto> [0]], lruOrder = [0]\<rparr> 8 ''eve'' 101 ''hello world'' = Inr m' \<and>
       length (slots m') \<le> 1000 \<and>
       (\<forall>v. length (user_slots m' v) \<le> 50 \<and> card (owned m' v) \<le> 50))"
proof -
  have r: "reachable (drop 16) ''0123456789abcdef''
     \<lparr>slots = [\<lparr>UserID = 7, Username = ''bob'', UpdatedAt = 100, SimHash = 0\<rparr>],
      userSlotIdx = [7 \<mapsto> [0]], lruOrder = [0]\<rparr>"
    using reachable_step[OF reachable_empty
        RecordTask_first[of "drop 16" "''0123456789abcdef''" 7 "''bob''" 100 "[]"]]
    by (simp add: simhash64_Nil)
  show ?thesis
    using r RecordTask_capacity[OF r, of 8 "''eve''" 101 "''hello world''"] by blast
qed

lemma index_consistentI:
  assumes "\<And>u. userSlotIdx m u \<noteq> Some []"
    and "\<And>u. distinct (user_slots m u)"
    and "\<And>u i. i \<in> set (user_slots m u) \<Longrightarrow> i < length (slots m) \<and> UserID (slots m ! i) = u"
    and "\<And>i. i < length (slots m) \<Longrightarrow> i \<in> set (user_slots m (UserID (slots m ! i)))"
    and "distinct (lruOrder m)" and "set (lruOrder m) = {..<length (slots m)}"
  shows "index_consistent m"
  unfolding index_consistent_def using assms by blast

lemma two_users_consistent: "index_consistent two_users"
proof (rule index_consistentI)
  fix u i
  show "i \<in> set (user_slots two_users u) \<Longrightarrow>
     i < length (slots two_users) \<and> UserID (slots two_users ! i) = u"
    by (simp add: two_users_def user_slots_def split: if_splits)
next
  fix i
  show "i < length (slots two_users) \<Longrightarrow>
     i \<in> set (user_slots two_users (UserID (slots two_users ! i)))"
    by (auto simp: two_users_def user_slots_def less_Suc_eq)
qed (auto simp: two_users_def user_slots_def)

lemma two_users_sorted: "lru_sorted two_users"
  by (simp add: lru_sorted_def two_users_def)

lemma one_user_consistent: "index_consistent (one_user k)"
proof (rule index_consistentI)
  fix u i
  show "i \<in> set (user_slots (one_user k) u) \<Longrightarrow>
     i < length (slots (one_user k)) \<and> UserID (slots (one_user k) ! i) = u"
    by (simp add: one_user_def user_slots_def split: if_splits)
next
  fix i
  show "i < length (slots (one_user k)) \<Longrightarrow>
     i \<in> set (user_slots (one_user k) (UserID (slots (one_user k) ! i)))"
    by (auto simp: one_user_def user_slots_def)
qed (auto simp: one_user_def user_slots_def)

lemma map_nth_upt:
  "map (\<lambda>i. g (map f [0..<k] ! i)) [0..<k] = map (\<lambda>i. g (f i)) [0..<k]"
  by (rule nth_equalityI) auto

lemma one_user_sorted: "lru_sorted (one_user k)"
proof -
  have "sorted (map (\<lambda>i. 10 + int i) [0..<k])"
    by (simp add: sorted_map sorted_wrt_iff_nth_less)
  then show ?thesis by (simp add: lru_sorted_def one_user_def map_nth_upt)
qed

lemma one_each_consistent: "index_consistent (one_each k)"
proof (rule index_consistentI)
  fix u i
  show "i \<in> set (user_slots (one_each k) u) \<Longrightarrow>
     i < length (slots (one_each k)) \<and> UserID (slots (one_each k) ! i) = u"
    by (auto simp: one_each_def user_slots_def split: if_splits)
next
  fix i
  show "i < length (slots (one_each k)) \<Longrightarrow>
     i \<in> set (user_slots (one_each k) (UserID (slots (one_each k) ! i)))"
    by (auto simp: one_each_def user_slots_def)
qed (auto simp: one_each_def user_slots_def)

lemma one_each_sorted: "lru_sorted (one_each k)"
  by (simp add: lru_sorted_def one_each_def map_nth_upt sorted_map sorted_wrt_iff_nth_less)

lemma one_each_step:
  assumes "k < MaxGlobalSlots"
  shows "RecordTask sha1 salt (one_each k) (int k + 1) [] 0 [] = Inr (one_each (Suc k))"
proof -
  have v: "\<forall>i\<in>set (user_slots (one_each k) (int k + 1)). i < length (slots (one_each k))"
    by (simp add: one_each_def user_slots_def)
  have f: "find (similar (one_each k) (simhash64 sha1 salt [])) (user_slots (one_each k) (int k + 1)) = None"
    by (simp add: one_each_def user_slots_def)
  have l: "length (user_slots (one_each k) (int k + 1)) < MaxUserSlots"
    by (simp add: one_each_def user_slots_def MaxUserSlots_def)
  have g: "length (slots (one_each k)) < MaxGlobalSlots"
    using assms by (simp add: one_each_def)
  have "(userSlotIdx (one_each k))(int k + 1 \<mapsto> user_slots (one_each k) (int k + 1) @ [length (slots (one_each k))])
       = userSlotIdx (one_each (Suc k))"
    by (rule ext) (auto simp: one_each_def user_slots_def)
  then show ?thesis
    unfolding RecordTask_new[OF v f l g]
    by (simp add: one_each_def simhash64_Nil)
qed

lemma one_each_reachable:
  "k \<le> MaxGlobalSlots \<Longrightarrow> reachable sha1 salt (one_each k)"
proof (induction k)
  case 0
  have "one_each 0 = empty_manager"
    by (simp add: one_each_def empty_manager_def) (rule ext, simp)
  then show ?case by (simp add: reachable_empty)
next
  case (Suc k)
  then have "reachable sha1 salt (one_each k)" and "k < MaxGlobalSlots" by simp_all
  then show ?case
    using reachable_step[OF _ one_each_step] by blast
qed

lemma two_users_touch:
  "RecordTask sha1 salt two_users 7 ''rob'' 105 [] =
     Inr \<lparr>slots = [\<lparr>UserID = 7, Username = ''rob'', UpdatedAt = 105, SimHash = 0\<rparr>,
                   \<lparr>UserID = 8, Username = ''eve'', UpdatedAt = 101, SimHash = - 1\<rparr>],
          userSlotIdx = [7 \<mapsto> [0], 8 \<mapsto> [1]],
          lruOrder = [1, 0]\<rparr>"
  by (simp add: RecordTask_def two_users_def simhash64_Nil user_slots_def hamming64_self
        moveToLRUEnd_def)

lemma one_each_reachable_mono:
  "k \<le> MaxGlobalSlots \<Longrightarrow> reachable_mono sha1 salt (one_each k)"
proof (induction k)
  case 0
  have "one_each 0 = empty_manager"
    by (simp add: one_each_def empty_manager_def) (rule ext, simp)
  then show ?case by (simp add: mono_empty)
next
  case (Suc k)
  then have r: "reachable_mono sha1 salt (one_each k)" and k: "k < MaxGlobalSlots" by simp_all
  have c: "clock_ok (one_each k) 0" by (simp add: clock_ok_def one_each_def)
  show ?case
    by (rule mono_step[OF r c one_each_step[OF k]])
qed

lemma stepped_back_consistent: "index_consistent (stepped_back k)"
proof (rule index_consistentI)
  fix u i
  show "i \<in> set (user_slots (stepped_back k) u) \<Longrightarrow>
     i < length (slots (stepped_back k)) \<and> UserID (slots (stepped_back k) ! i) = u"
    by (auto simp: stepped_back_def user_slots_def split: if_splits)
next
  fix i
  show "i < length (slots (stepped_back k)) \<Longrightarrow>
     i \<in> set (user_slots (stepped_back k) (UserID (slots (stepped_back k) ! i)))"
    by (auto simp: stepped_back_def user_slots_def)
qed (auto simp: stepped_back_def user_slots_def)

lemma stepped_back_step:
  assumes "k < MaxGlobalSlots"
  shows "RecordTask sha1 salt (stepped_back k) (int k + 1) [] (if k = 0 then 100 else 0) []
           = Inr (stepped_back (Suc k))"
proof -
  have v: "\<forall>i\<in>set (user_slots (stepped_back k) (int k + 1)). i < length (slots (stepped_back k))"
    by (simp add: stepped_back_def user_slots_def)
  have f: "find (similar (stepped_back k) (simhash64 sha1 salt []))
             (user_slots (stepped_back k) (int k + 1)) = None"
    by (simp add: stepped_back_def user_slots_def)
  have l: "length (user_slots (stepped_back k) (int k + 1)) < MaxUserSlots"
    by (simp add: stepped_back_def user_slots_def MaxUserSlots_def)
  have g: "length (slots (stepped_back k)) < MaxGlobalSlots"
    using assms by (simp add: stepped_back_def)
  have "(userSlotIdx (stepped_back k))(int k + 1 \<mapsto>
           user_slots (stepped_back k) (int k + 1) @ [length (slots (stepped_back k))])
       = userSlotIdx (stepped_back (Suc k))"
    by (rule ext) (auto simp: stepped_back_def user_slots_def)
  then show ?thesis
    unfolding RecordTask_new[OF v f l g]
    by (simp add: stepped_back_def simhash64_Nil)
qed

lemma stepped_back_reachable:
  "k \<le> MaxGlobalSlots \<Longrightarrow> reachable sha1 salt (stepped_back k)"
proof (induction k)
  case 0
  have "stepped_back 0 = empty_manager"
    by (simp add: stepped_back_def empty_manager_def) (rule ext, simp)
  then show ?case by (simp add: reachable_empty)
next
  case (Suc k)
  then have "reachable sha1 salt (stepped_back k)" and "k < MaxGlobalSlots" by simp_all
  then show ?case
    using reachable_step[OF _ stepped_back_step] by blast
qed

lemma stepped_back_2:
  "slots (stepped_back 2) =
      [\<lparr>UserID = 1, Username = [], UpdatedAt = 100, SimHash = 0\<rparr>,
       \<lparr>UserID = 2, Username = [], UpdatedAt = 0, SimHash = 0\<rparr>]"
  by (simp add: stepped_back_def upt_rec)

theorem RecordTask_index_consistency_witness:
  "RecordTask (drop 16) ''0123456789abcdef'' two_users 7 ''rob'' 105 [] =
     Inr \<lparr>slots = [\<lparr>UserID = 7, Username = ''rob'', UpdatedAt = 105, SimHash = 0\<rparr>,
                   \<lparr>UserID = 8, Username = ''eve'', UpdatedAt = 101, SimHash = - 1\<rparr>],
          userSlotIdx = [7 \<mapsto> [0], 8 \<mapsto> [1]],
          lruOrder = [1, 0]\<rparr> \<and>
   index_consistent
     \<lparr>slots = [\<lparr>UserID = 7, Username = ''rob'', UpdatedAt = 105, SimHash = 0\<rparr>,
               \<lparr>UserID = 8, Username = ''eve'', UpdatedAt = 101, SimHash = - 1\<rparr>],
      userSlotIdx = [7 \<mapsto> [0], 8 \<mapsto> [1]],
      lruOrder = [1, 0]\<rparr> \<and>
   lru_sorted
     \<lparr>slots = [\<lparr>UserID = 7, Username = ''rob'', UpdatedAt = 105, SimHash = 0\<rparr>,
               \<lparr>UserID = 8, Username = ''eve'', UpdatedAt = 101, SimHash = - 1\<rparr>],
      userSlotIdx = [7 \<mapsto> [0], 8 \<mapsto> [1]],
      lruOrder = [1, 0]\<rparr>"
proof -
  have c: "clock_ok two_users 105" by (simp add: clock_ok_def two_users_def)
  show ?thesis
    using two_users_touch[of "drop 16" "''0123456789abcdef''"] two_users_sorted c
      RecordTask_index_consistency[OF two_users_consistent,
        of "drop 16" "''0123456789abcdef''" 7 "''rob''" 105 "[]"]
    by auto
qed

theorem RecordTask_index_consistency_counterexample:
  "reachable (drop 16) ''0123456789abcdef'' (stepped_back 1) \<and>
   index_consistent (stepped_back 1) \<and> lru_sorted (stepped_back 1) \<and>
   RecordTask (drop 16) ''0123456789abcdef'' (stepped_back 1) 2 [] 0 [] = Inr (stepped_back 2) \<and>
   \<not> lru_sorted (stepped_back 2) \<and>
   hd (lruOrder (stepped_back 2)) = 0 \<and>
   UpdatedAt (slots (stepped_back 2) ! 0) = 100 \<and>
   UpdatedAt (slots (stepped_back 2) ! 1) = 0"
proof -
  have r: "reachable (drop 16) ''0123456789abcdef'' (stepped_back 1)"
    by (rule stepped_back_reachable) (simp add: MaxGlobalSlots_def)
  have s1: "lru_sorted (stepped_back 1)"
    by (simp add: lru_sorted_def stepped_back_def)
  have st: "RecordTask (drop 16) ''0123456789abcdef'' (stepped_back 1) 2 [] 0 []
      = Inr (stepped_back 2)"
    using stepped_back_step[of 1 "drop 16" "''0123456789abcdef''"]
    by (simp add: MaxGlobalSlots_def numeral_2_eq_2)
  have l: "lruOrder (stepped_back 2) = [0, 1]"
    by (simp add: stepped_back_def upt_rec)
  have ns: "\<not> lru_sorted (stepped_back 2)"
    by (simp add: lru_sorted_def l stepped_back_2)
  show ?thesis
    using r s1 st ns stepped_back_consistent[of 1] by (simp add: l stepped_back_2)
qed

text \<open>
  Claim C3. When some slot of the caller is within distance 5 of the new fingerprint, the
  first such slot in membership order is overwritten in place with the new fingerprint, the
  time \<open>now\<close> and the name, and moved to the most recent end of the recency list; the
  membership map, the caller's slot count and the size of the store do not change.
\<close>

theorem RecordTask_match_in_place:
  assumes inv: "index_consistent m"
    and ex: "\<exists>i\<in>set (user_slots m u). similar m (simhash64 sha1 salt data) i"
  shows "\<exists>m' idx pre post.
     RecordTask sha1 salt m u n now data = Inr m' \<and>
     user_slots m u = pre @ idx # post \<and>
     similar m (simhash64 sha1 salt data) idx \<and>
     (\<forall>j\<in>set pre. \<not> similar m (simhash64 sha1 salt data) j) \<and>
     slots m' = (slots m)[idx := \<lparr>UserID = u, Username = n, UpdatedAt = now,
                                  SimHash = simhash64 sha1 salt data\<rparr>] \<and>
     idx \<in> set (lruOrder m) \<and>
     lruOrder m' = remove1 idx (lruOrder m) @ [idx] \<and>
     userSlotIdx m' = userSlotIdx m \<and>
     length (user_slots m' u) = length (user_slots m u) \<and>
     length (slots m') = length (slots m)"
proof -
  let ?h = "simhash64 sha1 salt data"
  note v = valid_indices[OF inv, of u]
  from ex obtain idx where f: "find (similar m ?h) (user_slots m u) = Some idx"
    by (cases "find (similar m ?h) (user_slots m u)") (auto simp: find_None_iff)
  from find_Some_split[OF f] obtain pre post where
    d: "user_slots m u = pre @ idx # post" and p: "similar m ?h idx"
    and q: "\<forall>j\<in>set pre. \<not> similar m ?h j" by blast
  have mem: "idx \<in> set (user_slots m u)" by (simp add: d)
  then have i: "idx < length (slots m)" and o: "UserID (slots m ! idx) = u"
    using inv by (auto simp: index_consistent_def)
  have l: "idx \<in> set (lruOrder m)" using inv i by (simp add: index_consistent_def)
  let ?m' = "moveToLRUEnd (m\<lparr>slots := (slots m)[idx :=
       (slots m ! idx)\<lparr>UpdatedAt := now, SimHash := ?h, Username := n\<rparr>]\<rparr>) idx"
  have r: "RecordTask sha1 salt m u n now data = Inr ?m'"
    by (rule RecordTask_match[OF v f])
  have ns: "(slots m ! idx)\<lparr>UpdatedAt := now, SimHash := ?h, Username := n\<rparr>
      = \<lparr>UserID = u, Username = n, UpdatedAt = now, SimHash = ?h\<rparr>"
    using o by (cases "slots m ! idx") simp
  have "slots ?m' = (slots m)[idx := \<lparr>UserID = u, Username = n, UpdatedAt = now, SimHash = ?h\<rparr>]"
    and "lruOrder ?m' = remove1 idx (lruOrder m) @ [idx]"
    and "userSlotIdx ?m' = userSlotIdx m"
    and "length (user_slots ?m' u) = length (user_slots m u)"
    and "length (slots ?m') = length (slots m)"
    by (simp_all add: moveToLRUEnd_def ns user_slots_def)
  then show ?thesis using r d p q l by blast
qed

theorem RecordTask_match_in_place_witness:
  "RecordTask (drop 16) ''0123456789abcdef'' two_users 7 ''rob'' 105 [] =
     Inr \<lparr>slots = [\<lparr>UserID = 7, Username = ''rob'', UpdatedAt = 105, SimHash = 0\<rparr>,
                   \<lparr>UserID = 8, Username = ''eve'', UpdatedAt = 101, SimHash = - 1\<rparr>],
          userSlotIdx = [7 \<mapsto> [0], 8 \<mapsto> [1]],
          lruOrder = [1, 0]\<rparr> \<and>
   length (user_slots two_users 7) = 1 \<and> length (slots two_users) = 2"
proof -
  let ?h = "simhash64 (drop 16) ''0123456789abcdef'' []"
  have x: "\<exists>i\<in>set (user_slots two_users 7). similar two_users ?h i"
    by (simp add: user_slots_def similar_def simhash64_Nil hamming64_self two_users_def)
  from RecordTask_match_in_place[OF two_users_consistent x, of "''rob''" 105]
  obtain m' idx pre post where
    r: "RecordTask (drop 16) ''0123456789abcdef'' two_users 7 ''rob'' 105 [] = Inr m'"
    and d: "user_slots two_users 7 = pre @ idx # post"
    and sl: "slots m' = (slots two_users)[idx := \<lparr>UserID = 7, Username = ''rob'', UpdatedAt = 105,
               SimHash = ?h\<rparr>]"
    and lr: "lruOrder m' = remove1 idx (lruOrder two_users) @ [idx]"
    and us: "userSlotIdx m' = userSlotIdx two_users"
    by blast
  have "idx = 0" using d by (simp add: user_slots_def two_users_def Cons_eq_append_conv)
  then have "m' = \<lparr>slots = [\<lparr>UserID = 7, Username = ''rob'', UpdatedAt = 105, SimHash = 0\<rparr>,
               \<lparr>UserID = 8, Username = ''eve'', UpdatedAt = 101, SimHash = - 1\<rparr>],
      userSlotIdx = [7 \<mapsto> [0], 8 \<mapsto> [1]], lruOrder = [1, 0]\<rparr>"
    using sl lr us by (cases m') (simp add: simhash64_Nil two_users_def)
  then show ?thesis using r by (simp add: user_slots_def two_users_def)
qed

lemma hamming64_ones: "hamming64 (- 1) 0 = 64"
proof -
  have "filter (bit (- 1 :: 64 word)) [0..<64] = [0..<64]"
    by (rule filter_True) (simp add: bit_minus_1_iff)
  then show ?thesis by (simp add: hamming64_def OnesCount64_def)
qed

lemma no_match_find:
  "(\<forall>i\<in>set l. \<not> P i) \<Longrightarrow> find P l = None"
  by (simp add: find_None_iff)

lemma stored_None:
  "index_consistent m \<Longrightarrow> user_slots m v = [] \<Longrightarrow> userSlotIdx m v = None"
  by (cases "userSlotIdx m v") (auto simp: index_consistent_def user_slots_def)

text \<open>
  Claim C4, amended. For a caller below the per-user cap, with no slot within distance 5 of
  the new fingerprint, and a store of fewer than 1000 slots, \<open>RecordTask\<close> appends a new slot
  to the store, to the caller's membership list and to the recent end of the recency list:
  the caller's count and the size of the store grow by exactly 1, and no other membership
  list changes.
\<close>

theorem RecordTask_new_slot:
  assumes inv: "index_consistent m"
    and l: "length (user_slots m u) < MaxUserSlots"
    and g: "length (slots m) < MaxGlobalSlots"
    and nm: "\<forall>i\<in>set (user_slots m u). \<not> similar m (simhash64 sha1 salt data) i"
  shows "\<exists>m'. RecordTask sha1 salt m u n now data = Inr m' \<and>
     slots m' = slots m @ [\<lparr>UserID = u, Username = n, UpdatedAt = now,
                            SimHash = simhash64 sha1 salt data\<rparr>] \<and>
     user_slots m' u = user_slots m u @ [length (slots m)] \<and>
     (\<forall>v. v \<noteq> u \<longrightarrow> user_slots m' v = user_slots m v) \<and>
     lruOrder m' = lruOrder m @ [length (slots m)] \<and>
     length (user_slots m' u) = length (user_slots m u) + 1 \<and>
     length (slots m') = length (slots m) + 1"
proof -
  note v = valid_indices[OF inv, of u]
  note f = no_match_find[OF nm]
  show ?thesis
    unfolding RecordTask_new[OF v f l g] by (simp add: user_slots_def)
qed

theorem RecordTask_new_slot_witness:
  "RecordTask (drop 16) ''0123456789abcdef'' two_users 8 ''eve'' 105 [] =
     Inr \<lparr>slots = [\<lparr>UserID = 7, Username = ''bob'', UpdatedAt = 100, SimHash = 0\<rparr>,
                   \<lparr>UserID = 8, Username = ''eve'', UpdatedAt = 101, SimHash = - 1\<rparr>,
                   \<lparr>UserID = 8, Username = ''eve'', UpdatedAt = 105, SimHash = 0\<rparr>],
          userSlotIdx = [7 \<mapsto> [0], 8 \<mapsto> [1, 2]],
          lruOrder = [0, 1, 2]\<rparr>"
proof -
  let ?h = "simhash64 (drop 16) ''0123456789abcdef'' []"
  have l: "length (user_slots two_users 8) < MaxUserSlots"
    by (simp add: two_users_def user_slots_def MaxUserSlots_def)
  have g: "length (slots two_users) < MaxGlobalSlots"
    by (simp add: two_users_def MaxGlobalSlots_def)
  have nm: "\<forall>i\<in>set (user_slots two_users 8). \<not> similar two_users ?h i"
    by (simp add: two_users_def user_slots_def similar_def simhash64_Nil hamming64_ones
          SimHashThreshold_def)
  from RecordTask_new_slot[OF two_users_consistent l g nm, of "''eve''" 105]
  obtain m' where r: "RecordTask (drop 16) ''0123456789abcdef'' two_users 8 ''eve'' 105 [] = Inr m'"
    by blast
  have "RecordTask (drop 16) ''0123456789abcdef'' two_users 8 ''eve'' 105 [] =
     Inr \<lparr>slots = [\<lparr>UserID = 7, Username = ''bob'', UpdatedAt = 100, SimHash = 0\<rparr>,
                   \<lparr>UserID = 8, Username = ''eve'', UpdatedAt = 101, SimHash = - 1\<rparr>,
                   \<lparr>UserID = 8, Username = ''eve'', UpdatedAt = 105, SimHash = 0\<rparr>],
          userSlotIdx = [7 \<mapsto> [0], 8 \<mapsto> [1, 2]],
          lruOrder = [0, 1, 2]\<rparr>"
    by (simp add: RecordTask_def two_users_def simhash64_Nil user_slots_def hamming64_ones
          SimHashThreshold_def MaxUserSlots_def MaxGlobalSlots_def global_or_new_def new_slot_def
          numeral_2_eq_2)
  then show ?thesis using r by simp
qed

lemma one_each_new_user:
  assumes "int k < u"
  shows "user_slots (one_each k) u = []"
  using assms by (simp add: one_each_def user_slots_def)

lemma RecordTask_at_global_cap:
  assumes inv: "index_consistent m"
    and l: "length (user_slots m u) < MaxUserSlots"
    and g: "MaxGlobalSlots \<le> length (slots m)"
    and nm: "\<forall>i\<in>set (user_slots m u). \<not> similar m (simhash64 sha1 salt data) i"
  shows "\<exists>m'. RecordTask sha1 salt m u n now data = Inr m' \<and>
     lruOrder m \<noteq> [] \<and> hd (lruOrder m) < length (slots m) \<and>
     slots m' = (slots m)[hd (lruOrder m) := \<lparr>UserID = u, Username = n, UpdatedAt = now,
                            SimHash = simhash64 sha1 salt data\<rparr>] \<and>
     lruOrder m' = tl (lruOrder m) @ [hd (lruOrder m)] \<and>
     (\<forall>v. user_slots m' v = reuse_lists m (hd (lruOrder m)) u v) \<and>
     index_consistent m'"
proof -
  note v = valid_indices[OF inv, of u]
  note f = no_match_find[OF nm]
  have "slots m \<noteq> []" using g by (auto simp: MaxGlobalSlots_def)
  from lru_nonempty[OF inv this]
  have e: "lruOrder m \<noteq> []" and i: "hd (lruOrder m) < length (slots m)" by simp_all
  have t: "remove1 (hd (lruOrder m)) (lruOrder m) = tl (lruOrder m)"
    using e by (cases "lruOrder m") simp_all
  from reuseSlot_result[OF i, where u=u and n=n and t=now and h="simhash64 sha1 salt data"]
    reuse_invariants[OF inv i, where u=u and n=n and now=now and h="simhash64 sha1 salt data"] l
  show ?thesis
    unfolding RecordTask_global_cap[OF v f l g e] using e i t by auto
qed

theorem RecordTask_new_slot_counterexample:
  "reachable (drop 16) ''0123456789abcdef'' (one_each 1000) \<and>
   user_slots (one_each 1000) 2000 = [] \<and>
   length (slots (one_each 1000)) = 1000 \<and>
   \<not> isl (RecordTask (drop 16) ''0123456789abcdef'' (one_each 1000) 2000 ''zed'' 5 []) \<and>
   length (slots (projr (RecordTask (drop 16) ''0123456789abcdef'' (one_each 1000) 2000 ''zed'' 5 [])))
     = 1000"
proof -
  have r: "reachable (drop 16) ''0123456789abcdef'' (one_each 1000)"
    by (rule one_each_reachable) (simp add: MaxGlobalSlots_def)
  have u: "user_slots (one_each 1000) 2000 = []"
    by (rule one_each_new_user) simp
  have n: "length (slots (one_each 1000)) = 1000" by (simp add: one_each_def)
  have l: "length (user_slots (one_each 1000) 2000) < MaxUserSlots"
    by (simp add: u MaxUserSlots_def)
  have g: "MaxGlobalSlots \<le> length (slots (one_each 1000))"
    by (simp add: n MaxGlobalSlots_def)
  have nm: "\<forall>i\<in>set (user_slots (one_each 1000) 2000).
      \<not> similar (one_each 1000) (simhash64 (drop 16) ''0123456789abcdef'' []) i"
    by (simp add: u)
  from RecordTask_at_global_cap[OF one_each_consistent l g nm, of "''zed''" 5]
  obtain m' where
    "RecordTask (drop 16) ''0123456789abcdef'' (one_each 1000) 2000 ''zed'' 5 [] = Inr m'"
    and "length (slots m') = 1000"
    using n by auto
  then show ?thesis using r u n by simp
qed

text \<open>
  Claim C5. For a caller holding exactly 50 slots, none within distance 5 of the new
  fingerprint, \<open>RecordTask\<close> reuses the caller's slot of minimum timestamp, the first such
  in membership order: it overwrites its fields, moves it to the most recent end of the
  recency list, and leaves every membership list, the caller's count of 50 and the size of
  the store as they were.
\<close>

theorem RecordTask_user_cap_reuse:
  assumes inv: "index_consistent m"
    and l: "length (user_slots m u) = MaxUserSlots"
    and nm: "\<forall>i\<in>set (user_slots m u). \<not> similar m (simhash64 sha1 salt data) i"
  shows "\<exists>m' k pre post. RecordTask sha1 salt m u n now data = Inr m' \<and>
     user_slots m u = pre @ k # post \<and>
     (\<forall>j\<in>set pre. UpdatedAt (slots m ! k) < UpdatedAt (slots m ! j)) \<and>
     (\<forall>j\<in>set post. UpdatedAt (slots m ! k) \<le> UpdatedAt (slots m ! j)) \<and>
     slots m' = (slots m)[k := \<lparr>UserID = u, Username = n, UpdatedAt = now,
                                SimHash = simhash64 sha1 salt data\<rparr>] \<and>
     lruOrder m' = remove1 k (lruOrder m) @ [k] \<and>
     (\<forall>v. user_slots m' v = user_slots m v) \<and>
     length (user_slots m' u) = 50 \<and>
     length (slots m') = length (slots m)"
proof -
  let ?h = "simhash64 sha1 salt data"
  note v = valid_indices[OF inv, of u]
  note f = no_match_find[OF nm]
  have c: "MaxUserSlots \<le> length (user_slots m u)" using l by simp
  from RecordTask_user_cap[OF v f c, where n=n and now=now]
  obtain k pre post where d: "user_slots m u = pre @ k # post"
    and p: "\<forall>j\<in>set pre. UpdatedAt (slots m ! k) < UpdatedAt (slots m ! j)"
    and q: "\<forall>j\<in>set post. UpdatedAt (slots m ! k) \<le> UpdatedAt (slots m ! j)"
    and r: "RecordTask sha1 salt m u n now data = reuseSlot m k u n now ?h"
    by blast
  have "k \<in> set (user_slots m u)" by (simp add: d)
  then have k: "k < length (slots m)" and o: "UserID (slots m ! k) = u"
    using inv by (auto simp: index_consistent_def)
  from reuseSlot_result[OF k, where u=u and n=n and t=now and h="?h"]
  obtain m' where r': "reuseSlot m k u n now ?h = Inr m'"
    and sl: "slots m' = (slots m)[k := \<lparr>UserID = u, Username = n, UpdatedAt = now, SimHash = ?h\<rparr>]"
    and lru: "lruOrder m' = remove1 k (lruOrder m) @ [k]"
    and us: "\<forall>v. user_slots m' v = reuse_lists m k u v"
    by blast
  have us': "\<forall>v. user_slots m' v = user_slots m v"
    using us o by (simp add: reuse_lists_def)
  then have "length (user_slots m' u) = 50" using l by (simp add: MaxUserSlots_def)
  moreover have "length (slots m') = length (slots m)" by (simp add: sl)
  ultimately show ?thesis using r r' d p q sl lru us' by auto
qed

theorem RecordTask_user_cap_reuse_witness:
  "length (user_slots (one_user 50) 1) = 50 \<and>
   \<not> isl (RecordTask (drop 16) ''0123456789abcdef'' (one_user 50) 1 ''amy'' 99 []) \<and>
   slots (projr (RecordTask (drop 16) ''0123456789abcdef'' (one_user 50) 1 ''amy'' 99 []))
     = (slots (one_user 50))[0 := \<lparr>UserID = 1, Username = ''amy'', UpdatedAt = 99, SimHash = 0\<rparr>] \<and>
   lruOrder (projr (RecordTask (drop 16) ''0123456789abcdef'' (one_user 50) 1 ''amy'' 99 []))
     = [1..<50] @ [0]"
proof -
  let ?m = "one_user 50"
  let ?h = "simhash64 (drop 16) ''0123456789abcdef'' []"
  have us: "user_slots ?m 1 = [0..<50]" by (simp add: one_user_def user_slots_def)
  have l: "length (user_slots ?m 1) = MaxUserSlots" by (simp add: us MaxUserSlots_def)
  have nm: "\<forall>i\<in>set (user_slots ?m 1). \<not> similar ?m ?h i"
    by (simp add: us) (simp add: one_user_def similar_def simhash64_Nil hamming64_ones
          SimHashThreshold_def)
  from RecordTask_user_cap_reuse[OF one_user_consistent l nm, of "''amy''" 99]
  obtain m' k pre post where
    r: "RecordTask (drop 16) ''0123456789abcdef'' ?m 1 ''amy'' 99 [] = Inr m'"
    and d: "user_slots ?m 1 = pre @ k # post"
    and p: "\<forall>j\<in>set pre. UpdatedAt (slots ?m ! k) < UpdatedAt (slots ?m ! j)"
    and q: "\<forall>j\<in>set post. UpdatedAt (slots ?m ! k) \<le> UpdatedAt (slots ?m ! j)"
    and sl: "slots m' = (slots ?m)[k := \<lparr>UserID = 1, Username = ''amy'', UpdatedAt = 99, SimHash = ?h\<rparr>]"
    and lru: "lruOrder m' = remove1 k (lruOrder ?m) @ [k]"
    by blast
  have ts: "UpdatedAt (slots ?m ! j) = 10 + int j" if "j < 50" for j
    using that by (simp add: one_user_def)
  have mem: "set (pre @ k # post) = {0..<50}" using d us by (metis set_upt)
  then have k50: "k < 50" by auto
  have "0 \<in> set (pre @ k # post)" using mem by simp
  then have "UpdatedAt (slots ?m ! k) \<le> UpdatedAt (slots ?m ! 0)"
    using p q by auto
  then have k0: "k = 0" using ts[OF k50] ts[of 0] by simp
  have "[0..<50] = 0 # [1..<50]" by (subst upt_conv_Cons) simp_all
  then have "remove1 0 [0..<50] = [1..<50]" by simp
  then have "lruOrder m' = [1..<50] @ [0]" using lru k0 by (simp add: one_user_def)
  then show ?thesis using r sl k0 us by (simp add: simhash64_Nil)
qed

text \<open>
  Claim C6, amended. When the store holds exactly 1000 slots and the caller, below the
  per-user cap, has no slot within distance 5 of the new fingerprint, \<open>RecordTask\<close> takes
  the head of the recency list, whoever owns it, and gives it to the caller; in a state
  reached by calls during which the clock never went back, that slot has the least
  timestamp of the whole store. If the former owner is another user, that user loses the
  slot from its membership list, the list being deleted when it becomes empty, and the
  caller gains it; the other lists are unchanged, and the store still holds 1000 slots.
\<close>

theorem RecordTask_global_cap_reassigns:
  assumes inv: "index_consistent m"
    and full: "length (slots m) = MaxGlobalSlots"
    and l: "length (user_slots m u) < MaxUserSlots"
    and nm: "\<forall>i\<in>set (user_slots m u). \<not> similar m (simhash64 sha1 salt data) i"
  shows "\<exists>m' idx old. RecordTask sha1 salt m u n now data = Inr m' \<and>
     lruOrder m \<noteq> [] \<and> idx = hd (lruOrder m) \<and> idx < length (slots m) \<and>
     old = UserID (slots m ! idx) \<and>
     (reachable_mono sha1 salt m \<longrightarrow>
        (\<forall>i<length (slots m). UpdatedAt (slots m ! idx) \<le> UpdatedAt (slots m ! i))) \<and>
     slots m' = (slots m)[idx := \<lparr>UserID = u, Username = n, UpdatedAt = now,
                                  SimHash = simhash64 sha1 salt data\<rparr>] \<and>
     lruOrder m' = tl (lruOrder m) @ [idx] \<and>
     length (slots m') = 1000 \<and>
     (old \<noteq> u \<longrightarrow>
        idx \<in> set (user_slots m old) \<and>
        user_slots m' old = remove1 idx (user_slots m old) \<and>
        length (user_slots m' old) + 1 = length (user_slots m old) \<and>
        (user_slots m old = [idx] \<longrightarrow> userSlotIdx m' old = None) \<and>
        user_slots m' u = user_slots m u @ [idx] \<and>
        length (user_slots m' u) = length (user_slots m u) + 1 \<and>
        (\<forall>v. v \<noteq> u \<and> v \<noteq> old \<longrightarrow> user_slots m' v = user_slots m v)) \<and>
     (old = u \<longrightarrow> (\<forall>v. user_slots m' v = user_slots m v))"
proof -
  let ?idx = "hd (lruOrder m)"
  let ?old = "UserID (slots m ! ?idx)"
  have g: "MaxGlobalSlots \<le> length (slots m)" using full by simp
  from RecordTask_at_global_cap[OF inv l g nm, where n=n and now=now]
  obtain m' where r: "RecordTask sha1 salt m u n now data = Inr m'"
    and e: "lruOrder m \<noteq> []" and i: "?idx < length (slots m)"
    and sl: "slots m' = (slots m)[?idx := \<lparr>UserID = u, Username = n, UpdatedAt = now,
                            SimHash = simhash64 sha1 salt data\<rparr>]"
    and lru: "lruOrder m' = tl (lruOrder m) @ [?idx]"
    and us: "\<forall>v. user_slots m' v = reuse_lists m ?idx u v"
    and inv': "index_consistent m'"
    by blast
  have oldest: "reachable_mono sha1 salt m \<longrightarrow>
      (\<forall>i<length (slots m). UpdatedAt (slots m ! ?idx) \<le> UpdatedAt (slots m ! i))"
    using reachable_mono_invariants[of sha1 salt m] lru_head_oldest[OF inv] by blast
  have n: "length (slots m') = 1000" using full by (simp add: sl MaxGlobalSlots_def)
  have mem: "?idx \<in> set (user_slots m ?old)"
    using inv i by (simp add: index_consistent_def)
  have same: "?old = u \<longrightarrow> (\<forall>v. user_slots m' v = user_slots m v)"
    by (simp add: us reuse_lists_def)
  have diff: "?old \<noteq> u \<longrightarrow>
        ?idx \<in> set (user_slots m ?old) \<and>
        user_slots m' ?old = remove1 ?idx (user_slots m ?old) \<and>
        length (user_slots m' ?old) + 1 = length (user_slots m ?old) \<and>
        (user_slots m ?old = [?idx] \<longrightarrow> userSlotIdx m' ?old = None) \<and>
        user_slots m' u = user_slots m u @ [?idx] \<and>
        length (user_slots m' u) = length (user_slots m u) + 1 \<and>
        (\<forall>v. v \<noteq> u \<and> v \<noteq> ?old \<longrightarrow> user_slots m' v = user_slots m v)"
  proof
    assume ne: "?old \<noteq> u"
    have a: "user_slots m' ?old = remove1 ?idx (user_slots m ?old)"
      using ne by (simp add: us reuse_lists_def)
    have b: "length (user_slots m' ?old) + 1 = length (user_slots m ?old)"
    proof -
      have "length (user_slots m ?old) > 0" using mem by (cases "user_slots m ?old") auto
      then show ?thesis using mem by (simp add: a length_remove1)
    qed
    have c: "user_slots m ?old = [?idx] \<longrightarrow> userSlotIdx m' ?old = None"
      using stored_None[OF inv', of ?old] a by simp
    have d: "user_slots m' u = user_slots m u @ [?idx]"
      using ne by (simp add: us reuse_lists_def)
    have f: "\<forall>v. v \<noteq> u \<and> v \<noteq> ?old \<longrightarrow> user_slots m' v = user_slots m v"
      using ne by (simp add: us reuse_lists_def)
    show "?idx \<in> set (user_slots m ?old) \<and>
        user_slots m' ?old = remove1 ?idx (user_slots m ?old) \<and>
        length (user_slots m' ?old) + 1 = length (user_slots m ?old) \<and>
        (user_slots m ?old = [?idx] \<longrightarrow> userSlotIdx m' ?old = None) \<and>
        user_slots m' u = user_slots m u @ [?idx] \<and>
        length (user_slots m' u) = length (user_slots m u) + 1 \<and>
        (\<forall>v. v \<noteq> u \<and> v \<noteq> ?old \<longrightarrow> user_slots m' v = user_slots m v)"
      using mem a b c d f by simp
  qed
  show ?thesis
    using r e i oldest sl lru n same diff by blast
qed

theorem RecordTask_global_cap_reassigns_witness:
  "reachable_mono (drop 16) ''0123456789abcdef'' (one_each 1000) \<and>
   length (slots (one_each 1000)) = 1000 \<and>
   user_slots (one_each 1000) 1 = [0] \<and>
   user_slots (one_each 1000) 1500 = [] \<and>
   UpdatedAt (slots (one_each 1000) ! 0) \<le> UpdatedAt (slots (one_each 1000) ! 999) \<and>
   \<not> isl (RecordTask (drop 16) ''0123456789abcdef'' (one_each 1000) 1500 ''new'' 5 []) \<and>
   slots (projr (RecordTask (drop 16) ''0123456789abcdef'' (one_each 1000) 1500 ''new'' 5 []))
     = (slots (one_each 1000))[0 := \<lparr>UserID = 1500, Username = ''new'', UpdatedAt = 5, SimHash = 0\<rparr>] \<and>
   userSlotIdx (projr (RecordTask (drop 16) ''0123456789abcdef'' (one_each 1000) 1500 ''new'' 5 [])) 1
     = None \<and>
   user_slots (projr (RecordTask (drop 16) ''0123456789abcdef'' (one_each 1000) 1500 ''new'' 5 [])) 1500
     = [0] \<and>
   length (slots (projr (RecordTask (drop 16) ''0123456789abcdef'' (one_each 1000) 1500 ''new'' 5 [])))
     = 1000"
proof -
  let ?m = "one_each 1000"
  let ?h = "simhash64 (drop 16) ''0123456789abcdef'' []"
  have rm: "reachable_mono (drop 16) ''0123456789abcdef'' ?m"
    by (rule one_each_reachable_mono) (simp add: MaxGlobalSlots_def)
  have u: "user_slots ?m 1500 = []" by (rule one_each_new_user) simp
  have u1: "user_slots ?m 1 = [0]" by (simp add: one_each_def user_slots_def)
  have full: "length (slots ?m) = MaxGlobalSlots" by (simp add: one_each_def MaxGlobalSlots_def)
  have l: "length (user_slots ?m 1500) < MaxUserSlots" by (simp add: u MaxUserSlots_def)
  have nm: "\<forall>i\<in>set (user_slots ?m 1500). \<not> similar ?m ?h i" by (simp add: u)
  have hd0: "hd (lruOrder ?m) = 0" by (simp add: one_each_def hd_upt)
  have old: "UserID (slots ?m ! 0) = 1" by (simp add: one_each_def)
  have n9: "(999::nat) < length (slots ?m)" by (simp add: one_each_def)
  from RecordTask_global_cap_reassigns[OF one_each_consistent full l nm, of "''new''" 5]
  obtain m' where
    r: "RecordTask (drop 16) ''0123456789abcdef'' ?m 1500 ''new'' 5 [] = Inr m'"
    and sl: "slots m' = (slots ?m)[0 := \<lparr>UserID = 1500, Username = ''new'', UpdatedAt = 5, SimHash = ?h\<rparr>]"
    and n: "length (slots m') = 1000"
    and del: "userSlotIdx m' 1 = None"
    and new: "user_slots m' 1500 = [0]"
    and mn: "\<forall>i<length (slots ?m). UpdatedAt (slots ?m ! 0) \<le> UpdatedAt (slots ?m ! i)"
    using hd0 old u u1 rm by auto
  have "UpdatedAt (slots ?m ! 0) \<le> UpdatedAt (slots ?m ! 999)" using mn n9 by blast
  then show ?thesis
    using r sl n del new rm u u1 full by (simp add: simhash64_Nil MaxGlobalSlots_def)
qed

theorem RecordTask_global_cap_reassigns_counterexample:
  "reachable (drop 16) ''0123456789abcdef'' (stepped_back 1000) \<and>
   length (slots (stepped_back 1000)) = 1000 \<and>
   user_slots (stepped_back 1000) 1500 = [] \<and>
   \<not> isl (RecordTask (drop 16) ''0123456789abcdef'' (stepped_back 1000) 1500 ''new'' 200 []) \<and>
   slots (projr (RecordTask (drop 16) ''0123456789abcdef'' (stepped_back 1000) 1500 ''new'' 200 []))
     = (slots (stepped_back 1000))[0 := \<lparr>UserID = 1500, Username = ''new'', UpdatedAt = 200,
                                          SimHash = 0\<rparr>] \<and>
   UpdatedAt (slots (stepped_back 1000) ! 0) = 100 \<and>
   UpdatedAt (slots (stepped_back 1000) ! 1) = 0"
proof -
  let ?m = "stepped_back 1000"
  let ?h = "simhash64 (drop 16) ''0123456789abcdef'' []"
  have r: "reachable (drop 16) ''0123456789abcdef'' ?m"
    by (rule stepped_back_reachable) (simp add: MaxGlobalSlots_def)
  have u: "user_slots ?m 1500 = []" by (simp add: stepped_back_def user_slots_def)
  have n: "length (slots ?m) = 1000" by (simp add: stepped_back_def)
  have l: "length (user_slots ?m 1500) < MaxUserSlots" by (simp add: u MaxUserSlots_def)
  have g: "MaxGlobalSlots \<le> length (slots ?m)" by (simp add: n MaxGlobalSlots_def)
  have nm: "\<forall>i\<in>set (user_slots ?m 1500). \<not> similar ?m ?h i" by (simp add: u)
  have hd0: "hd (lruOrder ?m) = 0" by (simp add: stepped_back_def hd_upt)
  have t0: "UpdatedAt (slots ?m ! 0) = 100" by (simp add: stepped_back_def)
  have t1: "UpdatedAt (slots ?m ! 1) = 0" by (simp add: stepped_back_def)
  from RecordTask_at_global_cap[OF stepped_back_consistent l g nm, of "''new''" 200]
  obtain m' where
    "RecordTask (drop 16) ''0123456789abcdef'' ?m 1500 ''new'' 200 [] = Inr m'"
    and "slots m' = (slots ?m)[0 := \<lparr>UserID = 1500, Username = ''new'', UpdatedAt = 200, SimHash = ?h\<rparr>]"
    using hd0 by auto
  then show ?thesis using r u n t0 t1 by (simp add: simhash64_Nil)
qed

section \<open>The rank reporter\<close>

lemma length_swap_greater [simp]: "length (swap_greater i j r) = length r"
  by (simp add: swap_greater_def)

lemma mset_swap_greater:
  "i < length r \<Longrightarrow> j < length r \<Longrightarrow> mset (swap_greater i j r) = mset r"
  by (simp add: swap_greater_def mset_swap)

lemma inner_loop_props:
  assumes "i < n" "n \<le> length r"
  shows "length (fold (swap_greater i) [i + 1..<n] r) = length r \<and>
         mset (fold (swap_greater i) [i + 1..<n] r) = mset r \<and>
         (\<forall>k<i. fold (swap_greater i) [i + 1..<n] r ! k = r ! k) \<and>
         (\<forall>k. i < k \<and> k < n \<longrightarrow>
            ActiveSlots (fold (swap_greater i) [i + 1..<n] r ! k)
              \<le> ActiveSlots (fold (swap_greater i) [i + 1..<n] r ! i))"
  using assms
proof (induction n)
  case 0
  then show ?case by simp
next
  case (Suc n)
  show ?case
  proof (cases "i < n")
    case False
    then have "[i + 1..<Suc n] = []" using Suc.prems by simp
    moreover have "i = n" using Suc.prems False by simp
    ultimately show ?thesis by auto
  next
    case True
    define r1 where "r1 = fold (swap_greater i) [i + 1..<n] r"
    have n: "n \<le> length r" using Suc.prems by simp
    from Suc.IH[OF True n]
    have len: "length r1 = length r" and ms: "mset r1 = mset r"
      and pre: "\<forall>k<i. r1 ! k = r ! k"
      and mx: "\<forall>k. i < k \<and> k < n \<longrightarrow> ActiveSlots (r1 ! k) \<le> ActiveSlots (r1 ! i)"
      by (simp_all add: r1_def)
    have u: "[i + 1..<Suc n] = [i + 1..<n] @ [n]" using True by simp
    have f: "fold (swap_greater i) [i + 1..<Suc n] r = swap_greater i n r1"
      by (simp only: u fold_append r1_def) simp
    have il: "i < length r1" and nl: "n < length r1" using True Suc.prems len by simp_all
    have "mset (swap_greater i n r1) = mset r"
      using mset_swap_greater[OF il nl] ms by simp
    moreover have "\<forall>k<i. swap_greater i n r1 ! k = r ! k"
      using pre True by (simp add: swap_greater_def)
    moreover have "\<forall>k. i < k \<and> k < Suc n \<longrightarrow>
        ActiveSlots (swap_greater i n r1 ! k) \<le> ActiveSlots (swap_greater i n r1 ! i)"
    proof (intro allI impI)
      fix k assume k: "i < k \<and> k < Suc n"
      show "ActiveSlots (swap_greater i n r1 ! k) \<le> ActiveSlots (swap_greater i n r1 ! i)"
      proof (cases "ActiveSlots (r1 ! n) > ActiveSlots (r1 ! i)")
        case gt: True
        then have s: "swap_greater i n r1 = r1[i := r1 ! n, n := r1 ! i]"
          by (simp add: swap_greater_def)
        have si: "swap_greater i n r1 ! i = r1 ! n"
          using il nl True by (simp add: s nth_list_update)
        show ?thesis
        proof (cases "k = n")
          case True
          then have "swap_greater i n r1 ! k = r1 ! i" using nl by (simp add: s)
          then show ?thesis using gt si by simp
        next
          case False
          then have kn: "k < n" using k by simp
          then have "swap_greater i n r1 ! k = r1 ! k" using k by (simp add: s)
          then show ?thesis using mx k kn gt si by force
        qed
      next
        case le: False
        then have s: "swap_greater i n r1 = r1" by (simp add: swap_greater_def)
        show ?thesis
        proof (cases "k = n")
          case True
          then show ?thesis using le by (simp add: s)
        next
          case False
          then show ?thesis using mx k by (simp add: s)
        qed
      qed
    qed
    ultimately show ?thesis unfolding f using len by simp
  qed
qed

lemma suffix_mset:
  assumes m: "mset a = mset b" and p: "\<forall>k<t. a ! k = b ! k"
    and l: "length a = length b" and t: "t \<le> length a"
  shows "mset (drop t a) = mset (drop t b)"
proof -
  have tk: "take t a = take t b"
    using p l t by (auto intro!: nth_equalityI)
  have "mset (take t a) + mset (drop t a) = mset (take t b) + mset (drop t b)"
    using m by (simp only: mset_append[symmetric] append_take_drop_id)
  then show ?thesis by (simp add: tk)
qed

lemma outer_loop_props:
  assumes "t \<le> length r"
  shows "length (fold (\<lambda>i r. fold (swap_greater i) [i + 1..<length r] r) [0..<t] r) = length r \<and>
         mset (fold (\<lambda>i r. fold (swap_greater i) [i + 1..<length r] r) [0..<t] r) = mset r \<and>
         (\<forall>p<t. \<forall>k. p < k \<and> k < length r \<longrightarrow>
            ActiveSlots (fold (\<lambda>i r. fold (swap_greater i) [i + 1..<length r] r) [0..<t] r ! k)
              \<le> ActiveSlots (fold (\<lambda>i r. fold (swap_greater i) [i + 1..<length r] r) [0..<t] r ! p))"
  using assms
proof (induction t)
  case 0
  then show ?case by simp
next
  case (Suc t)
  define r1 where "r1 = fold (\<lambda>i r. fold (swap_greater i) [i + 1..<length r] r) [0..<t] r"
  define r2 where "r2 = fold (swap_greater t) [t + 1..<length r1] r1"
  have t: "t \<le> length r" using Suc.prems by simp
  from Suc.IH[OF t]
  have len1: "length r1 = length r" and ms1: "mset r1 = mset r"
    and s1: "\<forall>p<t. \<forall>k. p < k \<and> k < length r \<longrightarrow> ActiveSlots (r1 ! k) \<le> ActiveSlots (r1 ! p)"
    by (simp_all add: r1_def)
  have tl: "t < length r1" using Suc.prems len1 by simp
  from inner_loop_props[OF tl order_refl]
  have len2: "length r2 = length r1" and ms2: "mset r2 = mset r1"
    and pre: "\<forall>k<t. r2 ! k = r1 ! k"
    and mx: "\<forall>k. t < k \<and> k < length r1 \<longrightarrow> ActiveSlots (r2 ! k) \<le> ActiveSlots (r2 ! t)"
    by (simp_all add: r2_def)
  have f: "fold (\<lambda>i r. fold (swap_greater i) [i + 1..<length r] r) [0..<Suc t] r = r2"
    by (simp add: r2_def r1_def)
  have sfx: "mset (drop t r2) = mset (drop t r1)"
    using suffix_mset[OF ms2 pre len2] tl len2 by simp
  have "ActiveSlots (r2 ! k) \<le> ActiveSlots (r2 ! p)"
    if pk: "p < Suc t" "p < k" "k < length r" for p k
  proof (cases "p = t")
    case True
    then show ?thesis using mx pk len1 by simp
  next
    case False
    then have pt: "p < t" using pk by simp
    show ?thesis
    proof (cases "k < t")
      case True
      then show ?thesis using s1 pre pt pk by simp
    next
      case False
      then have "r2 ! k \<in> set (drop t r2)"
        using pk len1 len2 by (auto simp: in_set_conv_nth intro!: exI[of _ "k - t"])
      then have "r2 ! k \<in> set (drop t r1)" using sfx by (metis set_mset_mset)
      then obtain j where j: "j < length r1 - t" "r2 ! k = r1 ! (t + j)"
        by (auto simp: in_set_conv_nth)
      have "ActiveSlots (r1 ! (t + j)) \<le> ActiveSlots (r1 ! p)"
        using s1 pt j len1 by simp
      then show ?thesis using j pre pt by simp
    qed
  qed
  then show ?case
    unfolding f using len1 len2 ms1 ms2 by simp
qed

lemma sort_desc_sorted:
  "sorted_wrt (\<lambda>a b. ActiveSlots a \<ge> ActiveSlots b) (sort_desc r)"
proof -
  have t: "length r - 1 \<le> length r" by simp
  from outer_loop_props[OF t]
  have len: "length (sort_desc r) = length r"
    and s: "\<forall>p<length r - 1. \<forall>k. p < k \<and> k < length r \<longrightarrow>
             ActiveSlots (sort_desc r ! k) \<le> ActiveSlots (sort_desc r ! p)"
    by (simp_all add: sort_desc_def)
  show ?thesis
    unfolding sorted_wrt_iff_nth_less using s len by auto
qed

lemma sort_desc_mset: "mset (sort_desc r) = mset r"
  using outer_loop_props[of "length r - 1" r] by (simp add: sort_desc_def)

lemma wrap64_id: "- (2 ^ 63) \<le> x \<Longrightarrow> x < 2 ^ 63 \<Longrightarrow> wrap64 x = x"
  by (simp add: wrap64_def signed_take_bit_int_eq_self)

lemma count_slot_apply:
  "count_slot c x M u =
     (if c \<le> UpdatedAt x \<and> UserID x = u
      then Some ((case M u of
                    None \<Rightarrow> \<lparr>user_id = u, username = Username x, ActiveSlots = 0\<rparr>
                  | Some e \<Rightarrow> e)\<lparr>ActiveSlots :=
                     ActiveSlots (case M u of
                        None \<Rightarrow> \<lparr>user_id = u, username = Username x, ActiveSlots = 0\<rparr>
                      | Some e \<Rightarrow> e) + 1\<rparr>)
      else M u)"
  by (auto simp: count_slot_def Let_def)

lemma count_fold:
  "fold (count_slot c) sl Map.empty u =
     (if filter (\<lambda>s. UserID s = u \<and> UpdatedAt s \<ge> c) sl = [] then None
      else Some \<lparr>user_id = u,
                 username = Username (hd (filter (\<lambda>s. UserID s = u \<and> UpdatedAt s \<ge> c) sl)),
                 ActiveSlots = int (length (filter (\<lambda>s. UserID s = u \<and> UpdatedAt s \<ge> c) sl))\<rparr>)"
proof (induction sl rule: rev_induct)
  case Nil
  then show ?case by simp
next
  case (snoc x xs)
  define M where "M = fold (count_slot c) xs Map.empty"
  have ih: "M u =
     (if filter (\<lambda>s. UserID s = u \<and> UpdatedAt s \<ge> c) xs = [] then None
      else Some \<lparr>user_id = u,
                 username = Username (hd (filter (\<lambda>s. UserID s = u \<and> UpdatedAt s \<ge> c) xs)),
                 ActiveSlots = int (length (filter (\<lambda>s. UserID s = u \<and> UpdatedAt s \<ge> c) xs))\<rparr>)"
    using snoc.IH by (simp add: M_def)
  have "fold (count_slot c) (xs @ [x]) Map.empty u = count_slot c x M u"
    by (simp add: M_def)
  also have "\<dots> =
     (if filter (\<lambda>s. UserID s = u \<and> UpdatedAt s \<ge> c) (xs @ [x]) = [] then None
      else Some \<lparr>user_id = u,
                 username = Username (hd (filter (\<lambda>s. UserID s = u \<and> UpdatedAt s \<ge> c) (xs @ [x]))),
                 ActiveSlots = int (length (filter (\<lambda>s. UserID s = u \<and> UpdatedAt s \<ge> c) (xs @ [x])))\<rparr>)"
    unfolding count_slot_apply[of c x M u] ih by auto
  finally show ?case .
qed

lemma user_counts:
  "fold (count_slot c) (slots m) Map.empty u =
     (if active_of m c u = [] then None else Some (rank_entry m c u))"
  by (simp add: count_fold active_of_def rank_entry_def)

lemma high_fold:
  "fold (\<lambda>u result. if P u then result @ [u] else result) xs acc = acc @ filter P xs"
  by (induction xs arbitrary: acc) simp_all

lemma map_filter_total:
  "\<forall>k\<in>set ks. f k = Some (g k) \<Longrightarrow> List.map_filter f ks = map g ks"
  by (induction ks) (simp_all add: List.map_filter_simps)

lemma rank_unsorted:
  assumes n: "0 \<le> now" "now < 2 ^ 63" and w: "windowSeconds < 2 ^ 63"
    and k: "set keys = {u. active_of m (now - effective_window windowSeconds) u \<noteq> []}"
  shows "GetActiveTaskRank m now windowSeconds keys
     = sort_desc (map (rank_entry m (now - effective_window windowSeconds)) keys)"
proof -
  let ?c = "now - effective_window windowSeconds"
  have e: "0 < effective_window windowSeconds \<and> effective_window windowSeconds < 2 ^ 63"
    using w by (simp add: effective_window_def ActiveWindowSeconds_def)
  have c: "wrap64 ?c = ?c"
    using n e by (intro wrap64_id) simp_all
  have "\<forall>u\<in>set keys. fold (count_slot ?c) (slots m) Map.empty u = Some (rank_entry m ?c u)"
    using k by (simp add: user_counts)
  then have "List.map_filter (fold (count_slot ?c) (slots m) Map.empty) keys
      = map (rank_entry m ?c) keys"
    by (rule map_filter_total)
  then show ?thesis
    using c by (simp add: GetActiveTaskRank_def Let_def effective_window_def)
qed

text \<open>
  Claim C8, amended. With the window \<open>windowSeconds\<close> when it is positive and the default of
  30 seconds otherwise, and \<open>cutoff\<close> the time \<open>now\<close> less that window,
  \<open>GetActiveTaskRank\<close> returns one entry for each user with a slot of timestamp at least
  \<open>cutoff\<close>: the user, the name on the first such slot, and the number of such slots, each
  slot counted once. The entries are in descending order of the count.
  \<open>GetHighActiveUsers\<close> returns the entries of that ranking with a count of at least the
  threshold, in the same order.
\<close>

theorem GetActiveTaskRank_spec:
  assumes n: "0 \<le> now" "now < 2 ^ 63" and w: "windowSeconds < 2 ^ 63"
    and d: "distinct keys"
    and k: "set keys = {u. active_of m (now - effective_window windowSeconds) u \<noteq> []}"
  shows "sorted_wrt (\<lambda>a b. ActiveSlots a \<ge> ActiveSlots b)
           (GetActiveTaskRank m now windowSeconds keys) \<and>
         mset (GetActiveTaskRank m now windowSeconds keys)
           = mset (map (rank_entry m (now - effective_window windowSeconds)) keys) \<and>
         distinct (map user_id (GetActiveTaskRank m now windowSeconds keys)) \<and>
         user_id ` set (GetActiveTaskRank m now windowSeconds keys)
           = {u. active_of m (now - effective_window windowSeconds) u \<noteq> []} \<and>
         (\<forall>e \<in> set (GetActiveTaskRank m now windowSeconds keys).
            ActiveSlots e
              = int (length (active_of m (now - effective_window windowSeconds) (user_id e))) \<and>
            username e
              = Username (hd (active_of m (now - effective_window windowSeconds) (user_id e)))) \<and>
         GetHighActiveUsers m now windowSeconds threshold keys
           = filter (\<lambda>u. ActiveSlots u \<ge> threshold) (GetActiveTaskRank m now windowSeconds keys)"
proof -
  let ?c = "now - effective_window windowSeconds"
  let ?R = "GetActiveTaskRank m now windowSeconds keys"
  have R: "?R = sort_desc (map (rank_entry m ?c) keys)"
    by (rule rank_unsorted[OF n w k])
  have s: "sorted_wrt (\<lambda>a b. ActiveSlots a \<ge> ActiveSlots b) ?R"
    unfolding R by (rule sort_desc_sorted)
  have ms: "mset ?R = mset (map (rank_entry m ?c) keys)"
    unfolding R by (rule sort_desc_mset)
  have "mset (map user_id ?R) = image_mset user_id (mset (map (rank_entry m ?c) keys))"
    using ms by (metis mset_map)
  also have "\<dots> = mset keys"
    by (simp add: rank_entry_def image_mset.compositionality comp_def)
  finally have ids: "mset (map user_id ?R) = mset keys" .
  have di: "distinct (map user_id ?R)"
    using ids d by (metis mset_eq_imp_distinct_iff)
  have st: "set ?R = rank_entry m ?c ` set keys"
    using ms by (metis set_mset_mset set_map)
  then have im: "user_id ` set ?R = {u. active_of m ?c u \<noteq> []}"
    using k by (auto simp: rank_entry_def image_iff)
  have en: "\<forall>e \<in> set ?R.
      ActiveSlots e = int (length (active_of m ?c (user_id e))) \<and>
      username e = Username (hd (active_of m ?c (user_id e)))"
    using st by (auto simp: rank_entry_def)
  have hi: "GetHighActiveUsers m now windowSeconds threshold keys
           = filter (\<lambda>u. ActiveSlots u \<ge> threshold) ?R"
    by (simp add: GetHighActiveUsers_def Let_def high_fold)
  show ?thesis using s ms di im en hi by blast
qed

lemma three_slots_rank:
  "GetActiveTaskRank three_slots 110 20 [7, 8] =
     [\<lparr>user_id = 8, username = ''eve'', ActiveSlots = 2\<rparr>,
      \<lparr>user_id = 7, username = ''bob'', ActiveSlots = 1\<rparr>]"
proof -
  have "wrap64 90 = 90" by (rule wrap64_id) simp_all
  then show ?thesis
    by (simp add: GetActiveTaskRank_def three_slots_def ActiveWindowSeconds_def count_slot_def
          List.map_filter_simps sort_desc_def swap_greater_def)
qed

theorem GetActiveTaskRank_spec_witness:
  "GetActiveTaskRank three_slots 110 20 [7, 8] =
     [\<lparr>user_id = 8, username = ''eve'', ActiveSlots = 2\<rparr>,
      \<lparr>user_id = 7, username = ''bob'', ActiveSlots = 1\<rparr>] \<and>
   GetHighActiveUsers three_slots 110 20 2 [7, 8] =
     [\<lparr>user_id = 8, username = ''eve'', ActiveSlots = 2\<rparr>] \<and>
   sorted_wrt (\<lambda>a b. ActiveSlots a \<ge> ActiveSlots b)
     (GetActiveTaskRank three_slots 110 20 [7, 8])"
proof -
  have k: "set [7, 8] = {u. active_of three_slots (110 - effective_window 20) u \<noteq> []}"
    by (auto simp: active_of_def three_slots_def effective_window_def)
  have d: "distinct [7, 8 :: int]" by simp
  have n: "(0::int) \<le> 110" "(110::int) < 2 ^ 63" "(20::int) < 2 ^ 63" by simp_all
  show ?thesis
    using GetActiveTaskRank_spec[OF n d k, of 2] three_slots_rank by simp
qed

lemma one_each_2:
  "slots (one_each 2) =
      [\<lparr>UserID = 1, Username = [], UpdatedAt = 0, SimHash = 0\<rparr>,
       \<lparr>UserID = 2, Username = [], UpdatedAt = 0, SimHash = 0\<rparr>]"
  by (simp add: one_each_def upt_rec)

theorem GetActiveTaskRank_spec_counterexample:
  "reachable (drop 16) ''0123456789abcdef'' (one_each 2) \<and>
   filter (\<lambda>s. UpdatedAt s \<ge> 10 - 0) (slots (one_each 2)) = [] \<and>
   GetActiveTaskRank (one_each 2) 10 0 [1, 2] =
     [\<lparr>user_id = 1, username = [], ActiveSlots = 1\<rparr>,
      \<lparr>user_id = 2, username = [], ActiveSlots = 1\<rparr>]"
proof -
  have r: "reachable (drop 16) ''0123456789abcdef'' (one_each 2)"
    by (rule one_each_reachable) (simp add: MaxGlobalSlots_def)
  have "wrap64 (- 20) = - 20" by (rule wrap64_id) simp_all
  then show ?thesis
    using r
    by (simp add: GetActiveTaskRank_def one_each_2 ActiveWindowSeconds_def count_slot_def
          List.map_filter_simps sort_desc_def swap_greater_def)
qed

lemma active_count_fold:
  "fold (\<lambda>slot c. if P slot then c + 1 else c) xs (a::nat) = a + length (filter P xs)"
  by (induction xs arbitrary: a) simp_all

lemma dom_userSlotIdx:
  assumes "index_consistent m"
  shows "dom (userSlotIdx m) = UserID ` set (slots m)"
proof -
  have a: "\<And>u. userSlotIdx m u \<noteq> Some []"
    and c: "\<And>u. set (user_slots m u) = {i. i < length (slots m) \<and> UserID (slots m ! i) = u}"
    using assms by (simp_all add: index_consistent_def)
  have "u \<in> dom (userSlotIdx m) \<longleftrightarrow> u \<in> UserID ` set (slots m)" for u
  proof -
    have "u \<in> dom (userSlotIdx m) \<longleftrightarrow> user_slots m u \<noteq> []"
      using a[of u] by (cases "userSlotIdx m u") (auto simp: user_slots_def)
    also have "\<dots> \<longleftrightarrow> set (user_slots m u) \<noteq> {}" by simp
    also have "\<dots> \<longleftrightarrow> (\<exists>i<length (slots m). UserID (slots m ! i) = u)"
      unfolding c by auto
    also have "\<dots> \<longleftrightarrow> u \<in> UserID ` set (slots m)"
      by (metis (no_types, lifting) image_iff in_set_conv_nth)
    finally show ?thesis .
  qed
  then show ?thesis by blast
qed

text \<open>
  What \<open>GetStats\<close> returns: the number of allocated slots, the number of slots touched
  within the default window of 30 seconds, the capacities 1000 and 50, and the number of keys
  of the membership map, which in a consistent store is the number of users that own a slot.
\<close>

lemma GetStats_result:
  assumes inv: "index_consistent m" and n: "0 \<le> now" "now < 2 ^ 63"
  shows "GetStats m now =
     \<lparr>total_slots = length (slots m),
      active_slots = length (filter (\<lambda>s. now - 30 \<le> UpdatedAt s) (slots m)),
      max_global_slots = 1000,
      max_user_slots = 50,
      active_users = card (UserID ` set (slots m)),
      window_seconds = 30\<rparr> \<and>
     active_users (GetStats m now) = card (dom (userSlotIdx m))"
proof -
  have c: "wrap64 (now - 30) = now - 30"
    using n by (intro wrap64_id) simp_all
  show ?thesis
    by (simp add: GetStats_def active_count_fold c ActiveWindowSeconds_def MaxGlobalSlots_def
          MaxUserSlots_def dom_userSlotIdx[OF inv])
qed

lemma GetStats_two_users:
  "GetStats two_users 110 =
     \<lparr>total_slots = 2, active_slots = 2, max_global_slots = 1000, max_user_slots = 50,
      active_users = 2, window_seconds = 30\<rparr>"
proof -
  have n: "(0::int) \<le> 110" "(110::int) < 2 ^ 63" by simp_all
  show ?thesis
    using GetStats_result[OF two_users_consistent n] by (simp add: two_users_def)
qed

text \<open>
  Claim C9. The claim takes the active users to be the users with a slot touched within the
  window. \<open>GetStats\<close> reports the number of keys of the membership map, to which no window
  is applied: in the reachable store of two users whose slots were touched at time 0, read
  at time 1000, no slot has a timestamp within the last 30 seconds, the number of active
  slots is 0, and the number of active users is 2.
\<close>

theorem GetStats_active_users_stale:
  "reachable (drop 16) ''0123456789abcdef'' (one_each 2) \<and>
   filter (\<lambda>s. 1000 - 30 \<le> UpdatedAt s) (slots (one_each 2)) = [] \<and>
   active_slots (GetStats (one_each 2) 1000) = 0 \<and>
   active_users (GetStats (one_each 2) 1000) = 2"
proof -
  have r: "reachable (drop 16) ''0123456789abcdef'' (one_each 2)"
    by (rule one_each_reachable) (simp add: MaxGlobalSlots_def)
  have w: "wrap64 970 = 970" by (rule wrap64_id) simp_all
  have "dom (userSlotIdx (one_each 2)) = {1, 2}"
    by (auto simp: one_each_def dom_def)
  then have u: "active_users (GetStats (one_each 2) 1000) = 2"
    by (simp add: GetStats_def)
  show ?thesis
    using r u w by (simp add: GetStats_def one_each_2 ActiveWindowSeconds_def)
qed

end
